theory Spec2Isabelle
  imports Main "HOL-Library.Word"
begin

section \<open>The file-descriptor wrapper (tamer/fd.hh)\<close>

text \<open>
  \<^verbatim>\<open>fd\<close> holds one pointer \<^verbatim>\<open>_p\<close> to a shared \<^verbatim>\<open>fdimp\<close>, or null. The observers
  only read the pointer and the \<^verbatim>\<open>fd\<close> field behind it, so the wrapper is a record with
  an optional \<^verbatim>\<open>fdimp\<close>. \<^verbatim>\<open>EBADF\<close> is the constant of \<^verbatim>\<open>errno.h\<close>.
\<close>

definition EBADF :: int where
  "EBADF = 9"

record fdimp =
  imp_fd :: int
  imp_refcount :: nat
  imp_weak_refcount :: nat

record fd =
  fd_p :: "fdimp option"

text \<open>\<^verbatim>\<open>fdimp(int fd_) : fd(fd_), _refcount(1), _weak_refcount(0)\<close>\<close>

definition fdimp_new :: "int \<Rightarrow> fdimp" where
  "fdimp_new v = \<lparr>imp_fd = v, imp_refcount = 1, imp_weak_refcount = 0\<rparr>"

text \<open>\<^verbatim>\<open>fd::fd() : _p(0)\<close>\<close>

definition fd_default :: fd where
  "fd_default = \<lparr>fd_p = None\<rparr>"

text \<open>\<^verbatim>\<open>fd::fd(int value) : _p(value == -EBADF ? 0 : new fdimp(value))\<close>\<close>

definition fd_of_int :: "int \<Rightarrow> fd" where
  "fd_of_int v = \<lparr>fd_p = (if v = - EBADF then None else Some (fdimp_new v))\<rparr>"

text \<open>\<^verbatim>\<open>operator unspecified_bool_type: return _p && _p->fd >= 0 ? &fd::_p : 0\<close>\<close>

definition fd_bool :: "fd \<Rightarrow> bool" where
  "fd_bool f = (case fd_p f of None \<Rightarrow> False | Some i \<Rightarrow> imp_fd i \<ge> 0)"

text \<open>\<^verbatim>\<open>valid(): return _p && _p->fd >= 0\<close>\<close>

definition valid :: "fd \<Rightarrow> bool" where
  "valid f = (case fd_p f of None \<Rightarrow> False | Some i \<Rightarrow> imp_fd i \<ge> 0)"

text \<open>\<^verbatim>\<open>operator!(): return !_p || _p->fd < 0\<close>\<close>

definition fd_not :: "fd \<Rightarrow> bool" where
  "fd_not f = (case fd_p f of None \<Rightarrow> True | Some i \<Rightarrow> imp_fd i < 0)"

text \<open>\<^verbatim>\<open>error(): if (_p) return (_p->fd >= 0 ? 0 : _p->fd); else return -EBADF\<close>\<close>

definition error :: "fd \<Rightarrow> int" where
  "error f = (case fd_p f of Some i \<Rightarrow> (if imp_fd i \<ge> 0 then 0 else imp_fd i) | None \<Rightarrow> - EBADF)"

text \<open>\<^verbatim>\<open>value(): return (_p ? _p->fd : -EBADF)\<close>\<close>

definition fd_value :: "fd \<Rightarrow> int" where
  "fd_value f = (case fd_p f of Some i \<Rightarrow> imp_fd i | None \<Rightarrow> - EBADF)"

section \<open>Rendezvous, closures and the unblocked queue (tamer/xbase.hh)\<close>

text \<open>
  Objects live in a store indexed by address. A pointer to an \<^verbatim>\<open>abstract_rendezvous\<close>
  is null, the value \<^verbatim>\<open>unblocked_sentinel()\<close> (\<^verbatim>\<open>uintptr_t(1)\<close>) or the address of an
  object; \<^verbatim>\<open>unblocked_ptail\<close> points at the static \<^verbatim>\<open>unblocked\<close> or at the
  \<^verbatim>\<open>unblocked_next_\<close> field of an object. A pointer to a pointer to a \<^verbatim>\<open>simple_event\<close>
  points at the \<^verbatim>\<open>waiting_\<close> or \<^verbatim>\<open>ready_\<close> field of a rendezvous or at the \<^verbatim>\<open>_r_next\<close>
  field of an event. Field names drop the underscores of the source that Isabelle does not
  accept (\<^verbatim>\<open>_blocked_closure\<close> is \<open>blocked_closure\<close>, \<^verbatim>\<open>waiting_\<close> is \<open>waiting\<close>,
  \<^verbatim>\<open>_r\<close> is \<open>e_r\<close>, and so on). \<open>e_deleted\<close> says that \<^verbatim>\<open>delete\<close> was called on the
  event, and \<open>x_fired\<close> lists the events whose at-trigger hook has fired; neither is a
  field of the source.
\<close>

type_synonym addr = nat

datatype rendezvous_flags = rnormal | rvolatile

datatype rendezvous_type = rgather | rexplicit | rfunctional | rdistribute

datatype rptr = RNull | RSentinel | RPtr addr

datatype rpptr = PUnblocked | PUnblockedNext addr

datatype epptr = PWaiting addr | PReady addr | PNext addr

datatype xerror = AssertionFailed | InvalidDereference

record simple_event =
  e_r :: "addr option"
  e_rid :: "64 word"
  e_r_next :: "addr option"
  e_r_pprev :: epptr
  e_at_trigger :: "addr option"
  e_at_trigger_f :: "nat option"
  e_at_trigger_arg2 :: int
  e_refcount :: "32 word"
  e_deleted :: bool

text \<open>
  \<^verbatim>\<open>abstract_rendezvous\<close> with the two fields \<^verbatim>\<open>explicit_rendezvous\<close> adds
  (\<open>ready\<close>, \<open>ready_ptail\<close>), which only a rendezvous of type \<open>rexplicit\<close> uses.
\<close>

record rendezvous =
  waiting :: "addr option"
  blocked_closure :: "addr option"
  rtype :: rendezvous_type
  is_volatile :: bool
  unblocked_next :: rptr
  ready :: "addr option"
  ready_ptail :: epptr

text \<open>
  \<^verbatim>\<open>tamer_closure\<close> with the two fields of \<^verbatim>\<open>tamer_debug_closure\<close>; the activator is a
  function pointer, kept as a number.
\<close>

record tamer_closure =
  tamer_activator :: nat
  tamer_block_position :: "32 word"
  tamer_blocked_file :: string
  tamer_blocked_line :: int

record xstate =
  events :: "addr \<Rightarrow> simple_event"
  rendezvous :: "addr \<Rightarrow> rendezvous"
  closures :: "addr \<Rightarrow> tamer_closure"
  unblocked :: rptr
  unblocked_ptail :: rpptr
  x_fired :: "addr list"

text \<open>
  \<^verbatim>\<open>abstract_rendezvous(flags, rtype) : waiting_(0), _blocked_closure(0), rtype_(rtype),
  is_volatile_(flags == rvolatile)\<close>. The constructor leaves \<^verbatim>\<open>unblocked_next_\<close>
  uninitialised: the object keeps whatever the memory held (\<open>old\<close>).
  \<^verbatim>\<open>explicit_rendezvous(flags) : abstract_rendezvous(flags, rexplicit), ready_(),
  ready_ptail_(&ready_)\<close>.
\<close>

definition abstract_rendezvous_new :: "rendezvous_flags \<Rightarrow> rendezvous_type \<Rightarrow> rendezvous \<Rightarrow> rendezvous" where
  "abstract_rendezvous_new flags t old =
     old\<lparr>waiting := None, blocked_closure := None, rtype := t,
         is_volatile := (flags = rvolatile)\<rparr>"

definition explicit_rendezvous_new :: "addr \<Rightarrow> rendezvous_flags \<Rightarrow> rendezvous \<Rightarrow> rendezvous" where
  "explicit_rendezvous_new this flags old =
     (abstract_rendezvous_new flags rexplicit old)\<lparr>ready := None, ready_ptail := PReady this\<rparr>"

text \<open>
  \<^verbatim>\<open>block(tamer_closure &c, unsigned position, const char *, int)\<close>:
  \<^verbatim>\<open>assert(!_blocked_closure && &c); _blocked_closure = &c;
  unblocked_next_ = unblocked_sentinel(); c.tamer_block_position_ = position;\<close>
  A reference is never null, so the assertion fails exactly when a closure is parked.
\<close>

definition block :: "addr \<Rightarrow> addr \<Rightarrow> 32 word \<Rightarrow> xstate \<Rightarrow> xerror + xstate" where
  "block this c position s =
     (if blocked_closure (rendezvous s this) \<noteq> None then Inl AssertionFailed
      else Inr (s\<lparr>rendezvous := (rendezvous s)
                     (this := (rendezvous s this)\<lparr>blocked_closure := Some c,
                                                 unblocked_next := RSentinel\<rparr>),
                  closures := (closures s)
                     (c := (closures s c)\<lparr>tamer_block_position := position\<rparr>)\<rparr>))"

text \<open>
  \<^verbatim>\<open>block(tamer_debug_closure &c, unsigned position, const char *file, int line)\<close>:
  \<^verbatim>\<open>block(static_cast<tamer_closure &>(c), -position, file, line);
  c.tamer_blocked_file_ = file; c.tamer_blocked_line_ = line;\<close>
  The negation is that of \<^verbatim>\<open>unsigned\<close>, modulo \<open>2 ^ 32\<close>.
\<close>

definition block_debug :: "addr \<Rightarrow> addr \<Rightarrow> 32 word \<Rightarrow> string \<Rightarrow> int \<Rightarrow> xstate \<Rightarrow> xerror + xstate" where
  "block_debug this c position file line s =
     (case block this c (- position) s of
        Inl e \<Rightarrow> Inl e
      | Inr s1 \<Rightarrow> Inr (s1\<lparr>closures := (closures s1)
                      (c := (closures s1 c)\<lparr>tamer_blocked_file := file,
                                            tamer_blocked_line := line\<rparr>)\<rparr>))"

text \<open>The assignment \<^verbatim>\<open>*unblocked_ptail = p\<close>.\<close>

definition store_rpptr :: "rpptr \<Rightarrow> rptr \<Rightarrow> xstate \<Rightarrow> xstate" where
  "store_rpptr pp p s =
     (case pp of
        PUnblocked \<Rightarrow> s\<lparr>unblocked := p\<rparr>
      | PUnblockedNext q \<Rightarrow>
          s\<lparr>rendezvous := (rendezvous s)(q := (rendezvous s q)\<lparr>unblocked_next := p\<rparr>)\<rparr>)"

text \<open>
  \<^verbatim>\<open>unblock()\<close>: \<^verbatim>\<open>if (_blocked_closure && unblocked_next_ == unblocked_sentinel()) {
  *unblocked_ptail = this; unblocked_next_ = 0; unblocked_ptail = &unblocked_next_; }\<close>
\<close>

definition unblock :: "addr \<Rightarrow> xstate \<Rightarrow> xstate" where
  "unblock this s =
     (if blocked_closure (rendezvous s this) \<noteq> None
         \<and> unblocked_next (rendezvous s this) = RSentinel
      then (let s1 = store_rpptr (unblocked_ptail s) (RPtr this) s;
                s2 = s1\<lparr>rendezvous := (rendezvous s1)
                          (this := (rendezvous s1 this)\<lparr>unblocked_next := RNull\<rparr>)\<rparr>
            in s2\<lparr>unblocked_ptail := PUnblockedNext this\<rparr>)
      else s)"

text \<open>\<^verbatim>\<open>has_unblocked(): return unblocked;\<close>\<close>

definition has_unblocked :: "xstate \<Rightarrow> bool" where
  "has_unblocked s = (unblocked s \<noteq> RNull)"

text \<open>
  \<^verbatim>\<open>pop_unblocked()\<close>: \<^verbatim>\<open>r = unblocked; if (r) { if (!(unblocked = r->unblocked_next_))
  unblocked_ptail = &unblocked; } return r;\<close>
  Were \<^verbatim>\<open>unblocked\<close> the sentinel, the read of \<^verbatim>\<open>r->unblocked_next_\<close> would be a read
  through the address 1, which holds no object.
\<close>

definition pop_unblocked :: "xstate \<Rightarrow> xerror + (rptr \<times> xstate)" where
  "pop_unblocked s =
     (case unblocked s of
        RNull \<Rightarrow> Inr (RNull, s)
      | RSentinel \<Rightarrow> Inl InvalidDereference
      | RPtr r \<Rightarrow>
          (let n = unblocked_next (rendezvous s r);
               s1 = s\<lparr>unblocked := n\<rparr>
           in Inr (RPtr r, if n = RNull then s1\<lparr>unblocked_ptail := PUnblocked\<rparr> else s1)))"

text \<open>
  \<^verbatim>\<open>run()\<close>: \<^verbatim>\<open>c = _blocked_closure; _blocked_closure = 0; c->tamer_activator_(c);\<close>
  The activator is the closure's own code; the model returns the closure that is entered.
\<close>

definition run :: "addr \<Rightarrow> xstate \<Rightarrow> xerror + (addr \<times> xstate)" where
  "run this s =
     (case blocked_closure (rendezvous s this) of
        None \<Rightarrow> Inl InvalidDereference
      | Some c \<Rightarrow>
          Inr (c, s\<lparr>rendezvous := (rendezvous s)
                       (this := (rendezvous s this)\<lparr>blocked_closure := None\<rparr>)\<rparr>))"

text \<open>
  The unblocked queue of a state: the addresses met from \<^verbatim>\<open>unblocked\<close> along
  \<^verbatim>\<open>unblocked_next_\<close> up to null. \<open>is_chain h p xs\<close> says that the pointer \<open>p\<close> starts
  exactly the list \<open>xs\<close>; \<open>chain_list\<close> walks at most \<open>n\<close> links and fails on the
  sentinel or when the links run out.
\<close>

fun is_chain :: "(addr \<Rightarrow> rendezvous) \<Rightarrow> rptr \<Rightarrow> addr list \<Rightarrow> bool" where
  "is_chain h p [] = (p = RNull)"
| "is_chain h p (x # xs) = (p = RPtr x \<and> is_chain h (unblocked_next (h x)) xs)"

fun chain_list :: "nat \<Rightarrow> (addr \<Rightarrow> rendezvous) \<Rightarrow> rptr \<Rightarrow> addr list option" where
  "chain_list n h RNull = Some []"
| "chain_list n h RSentinel = None"
| "chain_list 0 h (RPtr x) = None"
| "chain_list (Suc n) h (RPtr x) =
     (case chain_list n h (unblocked_next (h x)) of None \<Rightarrow> None | Some xs \<Rightarrow> Some (x # xs))"

definition queue_of :: "nat \<Rightarrow> xstate \<Rightarrow> addr list option" where
  "queue_of n s = chain_list n (rendezvous s) (unblocked s)"

definition queue_ok :: "xstate \<Rightarrow> addr list \<Rightarrow> bool" where
  "queue_ok s xs \<longleftrightarrow>
     is_chain (rendezvous s) (unblocked s) xs \<and> distinct xs
     \<and> unblocked_ptail s = (if xs = [] then PUnblocked else PUnblockedNext (last xs))
     \<and> list_all (\<lambda>x. blocked_closure (rendezvous s x) \<noteq> None) xs"

text \<open>
  The states the runtime reaches. At start no rendezvous has a parked closure, \<^verbatim>\<open>unblocked\<close>
  is null and \<^verbatim>\<open>unblocked_ptail\<close> is \<^verbatim>\<open>&unblocked\<close> (the initialisers of the two statics
  are in \<^verbatim>\<open>xbase.cc\<close>); \<^verbatim>\<open>unblocked_next_\<close> of every object is arbitrary. A step is a
  \<^verbatim>\<open>block\<close> whose assertion holds, an \<^verbatim>\<open>unblock\<close>, a \<^verbatim>\<open>pop_unblocked\<close>, or the driver's
  \<^verbatim>\<open>pop_unblocked\<close> followed by \<^verbatim>\<open>run\<close> of the rendezvous popped.
\<close>

definition xinit :: "xstate \<Rightarrow> bool" where
  "xinit s \<longleftrightarrow> unblocked s = RNull \<and> unblocked_ptail s = PUnblocked
     \<and> (\<forall>r. blocked_closure (rendezvous s r) = None)"

inductive reachable :: "xstate \<Rightarrow> bool" where
  r_init: "xinit s \<Longrightarrow> reachable s"
| r_block: "reachable s \<Longrightarrow> block r c position s = Inr s' \<Longrightarrow> reachable s'"
| r_block_debug: "reachable s \<Longrightarrow> block_debug r c position file line s = Inr s' \<Longrightarrow> reachable s'"
| r_unblock: "reachable s \<Longrightarrow> reachable (unblock r s)"
| r_pop: "reachable s \<Longrightarrow> pop_unblocked s = Inr (p, s') \<Longrightarrow> reachable s'"
| r_pop_run: "reachable s \<Longrightarrow> pop_unblocked s = Inr (RPtr r, s1) \<Longrightarrow> run r s1 = Inr (c, s2)
              \<Longrightarrow> reachable s2"

subsection \<open>Arming, triggering and joining\<close>

text \<open>The assignment \<^verbatim>\<open>*pp = p\<close> through a pointer to a pointer to an event.\<close>

definition store_epptr :: "epptr \<Rightarrow> addr option \<Rightarrow> xstate \<Rightarrow> xstate" where
  "store_epptr pp p s =
     (case pp of
        PWaiting r \<Rightarrow> s\<lparr>rendezvous := (rendezvous s)(r := (rendezvous s r)\<lparr>waiting := p\<rparr>)\<rparr>
      | PReady r \<Rightarrow> s\<lparr>rendezvous := (rendezvous s)(r := (rendezvous s r)\<lparr>ready := p\<rparr>)\<rparr>
      | PNext e \<Rightarrow> s\<lparr>events := (events s)(e := (events s e)\<lparr>e_r_next := p\<rparr>)\<rparr>)"

text \<open>
  \<^verbatim>\<open>simple_event::initialize(r, rid)\<close>: \<^verbatim>\<open>_r = r; _rid = rid; _r_pprev = &r->waiting_;
  if (r->waiting_) r->waiting_->_r_pprev = &_r_next; _r_next = r->waiting_;
  at_trigger_ = 0; at_trigger_f_ = 0; r->waiting_ = this;\<close>
\<close>

definition initialize :: "addr \<Rightarrow> addr \<Rightarrow> 64 word \<Rightarrow> xstate \<Rightarrow> xstate" where
  "initialize this r rid s =
     (let w = waiting (rendezvous s r);
          ev1 = (events s)(this := (events s this)\<lparr>e_r := Some r, e_rid := rid,
                                                    e_r_pprev := PWaiting r\<rparr>);
          ev2 = (case w of
                   None \<Rightarrow> ev1
                 | Some h \<Rightarrow> ev1(h := (ev1 h)\<lparr>e_r_pprev := PNext this\<rparr>));
          ev3 = ev2(this := (ev2 this)\<lparr>e_r_next := w, e_at_trigger := None,
                                        e_at_trigger_f := None\<rparr>)
      in s\<lparr>events := ev3,
           rendezvous := (rendezvous s)(r := (rendezvous s r)\<lparr>waiting := Some this\<rparr>)\<rparr>)"

text \<open>\<^verbatim>\<open>unuse_clean(e)\<close>: \<^verbatim>\<open>if (e && --e->_refcount == 0) delete e;\<close>\<close>

definition unuse_clean :: "addr option \<Rightarrow> xstate \<Rightarrow> xstate" where
  "unuse_clean p s =
     (case p of
        None \<Rightarrow> s
      | Some e \<Rightarrow>
          (let c = e_refcount (events s e) - 1;
               s1 = s\<lparr>events := (events s)(e := (events s e)\<lparr>e_refcount := c\<rparr>)\<rparr>
           in if c = 0
              then s1\<lparr>events := (events s1)(e := (events s1 e)\<lparr>e_deleted := True\<rparr>)\<rparr>
              else s1))"

text \<open>
  \<^verbatim>\<open>explicit_rendezvous::pop_ready()\<close>: \<^verbatim>\<open>simple_event *e = ready_;
  if (!(ready_ = e->_r_next)) ready_ptail_ = &ready_; uintptr_t x = e->rid();
  simple_event::unuse_clean(e); return x;\<close>
  With an empty ready list the first read goes through a null pointer.
\<close>

definition pop_ready :: "addr \<Rightarrow> xstate \<Rightarrow> xerror + (64 word \<times> xstate)" where
  "pop_ready this s =
     (case ready (rendezvous s this) of
        None \<Rightarrow> Inl InvalidDereference
      | Some e \<Rightarrow>
          (let n = e_r_next (events s e);
               s1 = s\<lparr>rendezvous := (rendezvous s)(this := (rendezvous s this)\<lparr>ready := n\<rparr>)\<rparr>;
               s2 = (if n = None
                     then s1\<lparr>rendezvous := (rendezvous s1)
                               (this := (rendezvous s1 this)\<lparr>ready_ptail := PReady this\<rparr>)\<rparr>
                     else s1);
               x = e_rid (events s2 e)
           in Inr (x, unuse_clean (Some e) s2)))"

text \<open>
  Modelled from the spec: the static \<^verbatim>\<open>simple_event::simple_trigger(x, values)\<close> is defined
  in \<^verbatim>\<open>xbase.cc\<close>, which is not among the sources. The specification: if the event is
  already empty, no-op; else unlink it from the owner's waiting list, clear the owner
  pointer, mark the owner rendezvous ready with this event (explicit: append the event's
  identifier to the ready queue and schedule the rendezvous as unblocked; gather: if no
  events remain armed, schedule the rendezvous as unblocked; functional: invoke the
  callback), then fire the at-trigger hook, then drop the arming reference. The ready
  queue is the list that \<^verbatim>\<open>pop_ready\<close> reads: events linked through \<^verbatim>\<open>_r_next\<close> from
  \<^verbatim>\<open>ready_\<close>, with \<^verbatim>\<open>ready_ptail_\<close> at the last link; an event in it keeps its reference
  until \<^verbatim>\<open>pop_ready\<close> drops it with \<^verbatim>\<open>unuse_clean\<close>. The callback of a functional
  rendezvous and the body of a hook are user code and are outside the model.
\<close>

definition unlink :: "addr \<Rightarrow> xstate \<Rightarrow> xstate" where
  "unlink x s =
     (let pp = e_r_pprev (events s x);
          n = e_r_next (events s x);
          s1 = store_epptr pp n s;
          s2 = (case n of
                  None \<Rightarrow> s1
                | Some y \<Rightarrow> s1\<lparr>events := (events s1)(y := (events s1 y)\<lparr>e_r_pprev := pp\<rparr>)\<rparr>)
      in s2\<lparr>events := (events s2)(x := (events s2 x)\<lparr>e_r := None\<rparr>)\<rparr>)"

definition push_ready :: "addr \<Rightarrow> addr \<Rightarrow> xstate \<Rightarrow> xstate" where
  "push_ready r x s =
     (let s1 = store_epptr (ready_ptail (rendezvous s r)) (Some x) s;
          s2 = s1\<lparr>rendezvous := (rendezvous s1)(r := (rendezvous s1 r)\<lparr>ready_ptail := PNext x\<rparr>)\<rparr>
      in s2\<lparr>events := (events s2)(x := (events s2 x)\<lparr>e_r_next := None\<rparr>)\<rparr>)"

definition fire_hook :: "addr \<Rightarrow> xstate \<Rightarrow> xstate" where
  "fire_hook x s =
     (if e_at_trigger (events s x) \<noteq> None \<or> e_at_trigger_f (events s x) \<noteq> None
      then s\<lparr>x_fired := x_fired s @ [x]\<rparr> else s)"

definition simple_trigger :: "addr \<Rightarrow> bool \<Rightarrow> xstate \<Rightarrow> xstate" where
  "simple_trigger x values s =
     (case e_r (events s x) of
        None \<Rightarrow> s
      | Some r \<Rightarrow>
          (let s1 = unlink x s
           in case rtype (rendezvous s1 r) of
                rexplicit \<Rightarrow> fire_hook x (unblock r (push_ready r x s1))
              | rgather \<Rightarrow>
                  unuse_clean (Some x)
                    (fire_hook x (if waiting (rendezvous s1 r) = None then unblock r s1 else s1))
              | rfunctional \<Rightarrow> unuse_clean (Some x) (fire_hook x s1)
              | rdistribute \<Rightarrow> unuse_clean (Some x) (fire_hook x s1)))"

text \<open>
  Modelled from the spec: \<^verbatim>\<open>rendezvous<I>::join\<close> is defined in \<^verbatim>\<open>rendezvous.hh\<close>, which
  is not among the sources. The specification: \<^verbatim>\<open>join(&out_id)\<close> pops one identifier from
  the ready queue and returns true, or reports "no ready event" and returns false. The
  result is the identifier popped, if any.
\<close>

definition join :: "addr \<Rightarrow> xstate \<Rightarrow> xerror + (64 word option \<times> xstate)" where
  "join r s =
     (case ready (rendezvous s r) of
        None \<Rightarrow> Inr (None, s)
      | Some e \<Rightarrow>
          (case pop_ready r s of
             Inl err \<Rightarrow> Inl err
           | Inr (x, s1) \<Rightarrow> Inr (Some x, s1)))"

text \<open>\<open>n\<close> calls of \<^verbatim>\<open>join\<close> in a row, with their results in order.\<close>

fun joins :: "nat \<Rightarrow> addr \<Rightarrow> xstate \<Rightarrow> xerror + (64 word option list \<times> xstate)" where
  "joins 0 r s = Inr ([], s)"
| "joins (Suc n) r s =
     (case join r s of
        Inl err \<Rightarrow> Inl err
      | Inr (x, s1) \<Rightarrow>
          (case joins n r s1 of
             Inl err \<Rightarrow> Inl err
           | Inr (xs, s2) \<Rightarrow> Inr (x # xs, s2)))"

text \<open>
  The lists behind the pointers. \<open>e_chain ev p xs\<close>: following \<^verbatim>\<open>_r_next\<close> from \<open>p\<close>
  meets exactly \<open>xs\<close> and then null. \<open>dll ev r pp p xs\<close>: moreover every event of \<open>xs\<close>
  is owned by \<open>r\<close> and its \<^verbatim>\<open>_r_pprev\<close> points at the pointer that leads to it, \<open>pp\<close>
  for the first. \<open>ready_ok\<close> and \<open>waiting_ok\<close> say that the ready list and the waiting
  list of a rendezvous are such lists.
\<close>

fun e_chain :: "(addr \<Rightarrow> simple_event) \<Rightarrow> addr option \<Rightarrow> addr list \<Rightarrow> bool" where
  "e_chain ev p [] = (p = None)"
| "e_chain ev p (x # xs) = (p = Some x \<and> e_chain ev (e_r_next (ev x)) xs)"

fun dll :: "(addr \<Rightarrow> simple_event) \<Rightarrow> addr \<Rightarrow> epptr \<Rightarrow> addr option \<Rightarrow> addr list \<Rightarrow> bool" where
  "dll ev r pp p [] = (p = None)"
| "dll ev r pp p (x # xs) =
     (p = Some x \<and> e_r (ev x) = Some r \<and> e_r_pprev (ev x) = pp
      \<and> dll ev r (PNext x) (e_r_next (ev x)) xs)"

definition ready_ok :: "xstate \<Rightarrow> addr \<Rightarrow> addr list \<Rightarrow> bool" where
  "ready_ok s r xs \<longleftrightarrow>
     e_chain (events s) (ready (rendezvous s r)) xs \<and> distinct xs
     \<and> ready_ptail (rendezvous s r) = (if xs = [] then PReady r else PNext (last xs))
     \<and> list_all (\<lambda>x. e_r (events s x) = None) xs"

definition waiting_ok :: "xstate \<Rightarrow> addr \<Rightarrow> addr list \<Rightarrow> bool" where
  "waiting_ok s r ws \<longleftrightarrow>
     dll (events s) r (PWaiting r) (waiting (rendezvous s r)) ws \<and> distinct ws"

text \<open>
  What \<open>unlink\<close> does to the events, as a function of the events before (the store
  through \<^verbatim>\<open>_r_pprev\<close> reaches an event only when it points at a \<^verbatim>\<open>_r_next\<close> field).
\<close>

definition unlink_ev :: "(addr \<Rightarrow> simple_event) \<Rightarrow> addr \<Rightarrow> addr \<Rightarrow> simple_event" where
  "unlink_ev h x =
     (let pp = e_r_pprev (h x); n = e_r_next (h x);
          h1 = (case pp of PNext a \<Rightarrow> h(a := (h a)\<lparr>e_r_next := n\<rparr>) | _ \<Rightarrow> h);
          h2 = (case n of None \<Rightarrow> h1 | Some y \<Rightarrow> h1(y := (h1 y)\<lparr>e_r_pprev := pp\<rparr>))
      in h2(x := (h2 x)\<lparr>e_r := None\<rparr>))"

subsection \<open>Example states\<close>

text \<open>
  A store whose objects are all alike except rendezvous 0, an explicit rendezvous whose
  ready list holds the event 7; no closure is parked and the unblocked queue is empty.
\<close>

definition ex_event :: simple_event where
  "ex_event = \<lparr>e_r = None, e_rid = 0, e_r_next = None, e_r_pprev = PNext 0,
     e_at_trigger = None, e_at_trigger_f = None, e_at_trigger_arg2 = 0, e_refcount = 1,
     e_deleted = False\<rparr>"

definition ex_rendezvous :: rendezvous where
  "ex_rendezvous = \<lparr>waiting = None, blocked_closure = None, rtype = rexplicit,
     is_volatile = False, unblocked_next = RNull, ready = None, ready_ptail = PReady 0\<rparr>"

definition ex_closure :: tamer_closure where
  "ex_closure = \<lparr>tamer_activator = 0, tamer_block_position = 0, tamer_blocked_file = [],
     tamer_blocked_line = 0\<rparr>"

definition ex_state :: xstate where
  "ex_state = \<lparr>events = (\<lambda>_. ex_event),
     rendezvous = (\<lambda>_. ex_rendezvous)
        (0 := ex_rendezvous\<lparr>ready := Some 7, ready_ptail := PNext 7\<rparr>),
     closures = (\<lambda>_. ex_closure), unblocked = RNull, unblocked_ptail = PUnblocked,
     x_fired = []\<rparr>"

text \<open>
  Closure 10 blocks on rendezvous 1, which is unblocked; closure 11 blocks on rendezvous 2,
  which is unblocked; rendezvous 1 is unblocked once more.
\<close>

definition ex_run :: xstate where
  "ex_run = unblock 1 (unblock 2 (projr (block 2 11 6
               (unblock 1 (projr (block 1 10 5 ex_state))))))"

text \<open>
  A fresh explicit rendezvous 3 on which event 21 is armed with identifier 101 and then
  event 22 with identifier 102.
\<close>

definition ex_armed_state :: xstate where
  "ex_armed_state =
     initialize 22 3 102 (initialize 21 3 101
       (ex_state\<lparr>rendezvous := (rendezvous ex_state)
                   (3 := explicit_rendezvous_new 3 rnormal (rendezvous ex_state 3))\<rparr>))"

section \<open>Events of the driver's generation (the \<^verbatim>\<open>_event_superbase\<close> family)\<close>

text \<open>
  The driver and the typed events of this snapshot use \<^verbatim>\<open>_event_superbase\<close> and
  \<^verbatim>\<open>_rendezvous_base\<close>, whose class bodies are not among the sources. Of an event object
  the sources show the fields \<^verbatim>\<open>_refcount\<close>, \<^verbatim>\<open>_r\<close>, \<^verbatim>\<open>_r_name\<close> (constructors) and a
  hook; of the rendezvous side they show the static queue \<^verbatim>\<open>unblocked\<close> and the call
  \<^verbatim>\<open>_run()\<close>. The \<open>world\<close> holds the event objects by address, for every rendezvous the
  closure parked on it, the queue of unblocked rendezvous, and two logs: the completions
  reported to rendezvous and the hooks fired. Reference counts and the freeing of objects
  are not modelled.
\<close>

record event_superbase =
  b_refcount :: nat
  b_r :: "addr option"
  b_r_name :: "64 word"
  b_at_trigger :: "nat option"

record world =
  ev :: "addr \<Rightarrow> event_superbase"
  parked :: "addr \<Rightarrow> addr option"
  unblockedq :: "addr list"
  completions :: "(addr \<times> 64 word \<times> bool) list"
  hooks_fired :: "nat list"

text \<open>
  Modelled from the spec: \<^verbatim>\<open>_event_superbase::operator bool\<close> is not among the sources.
  The specification: the conversion to bool is true iff the event is still armed, and the
  empty predicate is exactly "owner pointer is null".
\<close>

definition event_bool :: "addr \<Rightarrow> 'a world_scheme \<Rightarrow> bool" where
  "event_bool e w = (b_r (ev w e) \<noteq> None)"

text \<open>
  Modelled from the spec: \<^verbatim>\<open>_event_superbase::complete(bool)\<close>, which every trigger calls,
  is not among the sources. The specification: a trigger of an event that is already empty
  is a no-op; otherwise the owner pointer is cleared, the owner rendezvous is told of the
  completion with the event's identifier and the values flag and is scheduled as unblocked
  (it joins the tail of the unblocked queue when a task is parked on it and it is not
  queued yet), and the at-trigger hook is fired. The result says whether the transition to
  empty happened. What a hook does when it runs is user code and is outside the model.
\<close>

definition complete :: "addr \<Rightarrow> bool \<Rightarrow> 'a world_scheme \<Rightarrow> bool \<times> 'a world_scheme" where
  "complete e values w =
     (case b_r (ev w e) of
        None \<Rightarrow> (False, w)
      | Some r \<Rightarrow>
          (True, w\<lparr>ev := (ev w)(e := (ev w e)\<lparr>b_r := None\<rparr>),
                   unblockedq := (if parked w r \<noteq> None \<and> r \<notin> set (unblockedq w)
                                  then unblockedq w @ [r] else unblockedq w),
                   completions := completions w @ [(r, b_r_name (ev w e), values)],
                   hooks_fired := (case b_at_trigger (ev w e) of
                                     None \<Rightarrow> hooks_fired w
                                   | Some h \<Rightarrow> hooks_fired w @ [h])\<rparr>))"

text \<open>
  \<^verbatim>\<open>event<>::trigger()\<close>: \<^verbatim>\<open>_e->complete(true)\<close>; \<^verbatim>\<open>event<>::cancel()\<close>:
  \<^verbatim>\<open>_e->complete(false)\<close>.
\<close>

definition trigger0 :: "addr \<Rightarrow> 'a world_scheme \<Rightarrow> 'a world_scheme" where
  "trigger0 e w = snd (complete e True w)"

definition cancel :: "addr \<Rightarrow> 'a world_scheme \<Rightarrow> 'a world_scheme" where
  "cancel e w = snd (complete e False w)"

subsection \<open>Typed events\<close>

text \<open>
  \<^verbatim>\<open>_event_base<T1, T2, T3, T4>\<close> derives from \<^verbatim>\<open>_event_superbase\<close> and adds the slot
  pointers \<^verbatim>\<open>_t1\<close> .. \<^verbatim>\<open>_t4\<close>; the three partial specialisations have three, two and
  one slot. A slot pointer is null or the address of storage of the caller, and two slots
  may hold the same address. \<open>b_t1 w e\<close> is the field \<^verbatim>\<open>_t1\<close> of the event at address
  \<open>e\<close>, and \<open>mem\<close> is the caller's storage. The four value types of the source are one
  type \<open>'v\<close> here.
\<close>

record 'v typed_world = world +
  b_t1 :: "addr \<Rightarrow> addr option"
  b_t2 :: "addr \<Rightarrow> addr option"
  b_t3 :: "addr \<Rightarrow> addr option"
  b_t4 :: "addr \<Rightarrow> addr option"
  mem :: "addr \<Rightarrow> 'v"

text \<open>\<^verbatim>\<open>if (_t) *_t = t;\<close>\<close>

definition write_slot :: "addr option \<Rightarrow> 'v \<Rightarrow> 'v typed_world \<Rightarrow> 'v typed_world" where
  "write_slot slot t w = (case slot of None \<Rightarrow> w | Some p \<Rightarrow> w\<lparr>mem := (mem w)(p := t)\<rparr>)"

text \<open>
  \<^verbatim>\<open>_event_base<T1, T2, T3, T4>::trigger(t1, t2, t3, t4)\<close>:
  \<^verbatim>\<open>if (_event_superbase::complete(true)) { if (_t1) *_t1 = t1; if (_t2) *_t2 = t2;
  if (_t3) *_t3 = t3; if (_t4) *_t4 = t4; }\<close>
\<close>

definition trigger4 :: "addr \<Rightarrow> 'v \<Rightarrow> 'v \<Rightarrow> 'v \<Rightarrow> 'v \<Rightarrow> 'v typed_world \<Rightarrow> 'v typed_world" where
  "trigger4 e t1 t2 t3 t4 w =
     (case complete e True w of
        (True, w1) \<Rightarrow>
          write_slot (b_t4 w1 e) t4 (write_slot (b_t3 w1 e) t3
            (write_slot (b_t2 w1 e) t2 (write_slot (b_t1 w1 e) t1 w1)))
      | (False, w1) \<Rightarrow> w1)"

text \<open>\<^verbatim>\<open>_event_base<T1, T2, T3, void>::trigger(t1, t2, t3)\<close>\<close>

definition trigger3 :: "addr \<Rightarrow> 'v \<Rightarrow> 'v \<Rightarrow> 'v \<Rightarrow> 'v typed_world \<Rightarrow> 'v typed_world" where
  "trigger3 e t1 t2 t3 w =
     (case complete e True w of
        (True, w1) \<Rightarrow>
          write_slot (b_t3 w1 e) t3 (write_slot (b_t2 w1 e) t2 (write_slot (b_t1 w1 e) t1 w1))
      | (False, w1) \<Rightarrow> w1)"

text \<open>\<^verbatim>\<open>_event_base<T1, T2, void, void>::trigger(t1, t2)\<close>\<close>

definition trigger2 :: "addr \<Rightarrow> 'v \<Rightarrow> 'v \<Rightarrow> 'v typed_world \<Rightarrow> 'v typed_world" where
  "trigger2 e t1 t2 w =
     (case complete e True w of
        (True, w1) \<Rightarrow> write_slot (b_t2 w1 e) t2 (write_slot (b_t1 w1 e) t1 w1)
      | (False, w1) \<Rightarrow> w1)"

text \<open>\<^verbatim>\<open>_event_base<T1, void, void, void>::trigger(t1)\<close>\<close>

definition trigger1 :: "addr \<Rightarrow> 'v \<Rightarrow> 'v typed_world \<Rightarrow> 'v typed_world" where
  "trigger1 e t1 w =
     (case complete e True w of
        (True, w1) \<Rightarrow> write_slot (b_t1 w1 e) t1 w1
      | (False, w1) \<Rightarrow> w1)"

text \<open>
  Event 1 is armed on rendezvous 2 with the hook 9 and the slots 100, null, 102 and 103;
  every other event is empty.
\<close>

definition ex_empty_event :: event_superbase where
  "ex_empty_event = \<lparr>b_refcount = 1, b_r = None, b_r_name = 0, b_at_trigger = None\<rparr>"

definition ex_typed_world :: "int typed_world" where
  "ex_typed_world = \<lparr>
     ev = (\<lambda>_. ex_empty_event)
            (1 := \<lparr>b_refcount = 1, b_r = Some 2, b_r_name = 5, b_at_trigger = Some 9\<rparr>),
     parked = (\<lambda>_. None), unblockedq = [], completions = [], hooks_fired = [],
     b_t1 = (\<lambda>_. None)(1 := Some 100), b_t2 = (\<lambda>_. None),
     b_t3 = (\<lambda>_. None)(1 := Some 102), b_t4 = (\<lambda>_. None)(1 := Some 103),
     mem = (\<lambda>_. 0)\<rparr>"

section \<open>The driver (\<^verbatim>\<open>tame_driver.cc\<close>)\<close>

subsection \<open>Time values\<close>

text \<open>
  \<^verbatim>\<open>struct timeval\<close> and the macros \<^verbatim>\<open>timercmp(a, b, >)\<close>, \<^verbatim>\<open>timerclear\<close> and
  \<^verbatim>\<open>timersub\<close> of \<^verbatim>\<open>sys/time.h\<close>. The fields are unbounded integers: seconds since the
  epoch are far from the limits of \<^verbatim>\<open>time_t\<close>.
\<close>

record timeval =
  tv_sec :: int
  tv_usec :: int

definition timercmp_gt :: "timeval \<Rightarrow> timeval \<Rightarrow> bool" where
  "timercmp_gt a b =
     (if tv_sec a = tv_sec b then tv_usec a > tv_usec b else tv_sec a > tv_sec b)"

definition timerclear :: timeval where
  "timerclear = \<lparr>tv_sec = 0, tv_usec = 0\<rparr>"

definition timersub :: "timeval \<Rightarrow> timeval \<Rightarrow> timeval" where
  "timersub a b =
     (if tv_usec a - tv_usec b < 0
      then \<lparr>tv_sec = tv_sec a - tv_sec b - 1, tv_usec = tv_usec a - tv_usec b + 1000000\<rparr>
      else \<lparr>tv_sec = tv_sec a - tv_sec b, tv_usec = tv_usec a - tv_usec b\<rparr>)"

text \<open>A time value in microseconds, and the values \<^verbatim>\<open>gettimeofday\<close> hands out.\<close>

definition usecs :: "timeval \<Rightarrow> int" where
  "usecs a = tv_sec a * 1000000 + tv_usec a"

definition normal_tv :: "timeval \<Rightarrow> bool" where
  "normal_tv a \<longleftrightarrow> 0 \<le> tv_usec a \<and> tv_usec a < 1000000"

subsection \<open>State\<close>

text \<open>
  A \<^verbatim>\<open>ttimer\<close> has an expiry, the event to trigger and the union \<^verbatim>\<open>u\<close> of its heap
  position and its free-list link. The driver's arrays are lists: \<open>d_t\<close> is
  \<^verbatim>\<open>_t[0 .. _nt-1]\<close> (so \<^verbatim>\<open>_nt\<close> is its length), \<open>d_fd\<close> is \<^verbatim>\<open>_fd\<close> (\<^verbatim>\<open>_fdcap\<close> is its
  length, the entry of descriptor \<open>fd\<close> and direction \<open>write\<close> is at \<open>fd * 2 + write\<close>),
  \<open>d_asap\<close> is \<^verbatim>\<open>_asap[0 .. _nasap-1]\<close>. An \<^verbatim>\<open>event<>\<close> is the address of its event
  object, \<open>dead_event\<close> that of \<^verbatim>\<open>_event_superbase::dead\<close>. An \<^verbatim>\<open>fd_set\<close> is a set of
  descriptors; descriptors and \<^verbatim>\<open>_nfds\<close> are natural numbers (the code has no check for
  a negative descriptor or one beyond \<^verbatim>\<open>FD_SETSIZE\<close>). The statics \<^verbatim>\<open>sig_pipe\<close>,
  \<^verbatim>\<open>sig_any_active\<close>, \<^verbatim>\<open>sig_active\<close> and \<^verbatim>\<open>sig_handlers\<close> are fields too. The field
  \<open>trace\<close> is not in the source: it records, in order, what a turn does to the outside
  (system calls, triggers of events, runs of rendezvous).
\<close>

datatype tunion = Schedpos nat | Next "addr option"

record ttimer =
  expiry :: timeval
  t_trigger :: addr
  u :: tunion

datatype action =
    Select int "nat set" "nat set" "timeval option"
  | TriggerSignal nat addr
  | Sigprocmask_unblock "nat list"
  | ReadPipe
  | TriggerAsap addr
  | TriggerFd nat bool addr
  | Gettimeofday
  | TriggerTimer addr addr
  | Run addr

record select_result =
  sel_ret :: int
  sel_errno :: int
  sel_rfds :: "nat set"
  sel_wfds :: "nat set"

record driver = world +
  d_t :: "addr list"
  timers :: "addr \<Rightarrow> ttimer"
  d_tfree :: "addr option"
  d_fd :: "addr list"
  d_nfds :: nat
  d_readfds :: "nat set"
  d_writefds :: "nat set"
  d_asap :: "addr list"
  d_now :: timeval
  sig_pipe0 :: int
  sig_pipe1 :: int
  sig_any_active :: bool
  sig_active :: "bool list"
  sig_handlers :: "addr list"
  trace :: "action list"

definition NSIGNALS :: nat where
  "NSIGNALS = 32"

definition dead_event :: addr where
  "dead_event = 0"



definition log :: "action \<Rightarrow> driver \<Rightarrow> driver" where
  "log a d = d\<lparr>trace := trace d @ [a]\<rparr>"

subsection \<open>The timer heap\<close>

text \<open>
  The first loop of \<^verbatim>\<open>timer_reheapify_from(pos, t, will_delete)\<close>:
  \<^verbatim>\<open>while (pos > 0 && (npos = (pos-1) >> 1, timercmp(&_t[npos]->expiry, &t->expiry, >)))
  { _t[pos] = _t[npos]; _t[npos]->u.schedpos = pos; pos = npos; }\<close>
\<close>

definition sift_up_step :: "nat \<Rightarrow> driver \<Rightarrow> driver" where
  "sift_up_step pos d =
     (let npos = (pos - 1) div 2;
          d1 = d\<lparr>d_t := (d_t d)[pos := d_t d ! npos]\<rparr>
      in d1\<lparr>timers := (timers d1)
               (d_t d1 ! npos := (timers d1 (d_t d1 ! npos))\<lparr>u := Schedpos pos\<rparr>)\<rparr>)"

function sift_up :: "nat \<Rightarrow> addr \<Rightarrow> driver \<Rightarrow> nat \<times> driver" where
  "sift_up pos t d =
     (if 0 < pos \<and> timercmp_gt (expiry (timers d (d_t d ! ((pos - 1) div 2))))
                                 (expiry (timers d t))
      then sift_up ((pos - 1) div 2) t (sift_up_step pos d)
      else (pos, d))"
  by pat_completeness auto
termination
  by (relation "measure (\<lambda>(pos, t, d). pos)") auto

declare sift_up.simps [simp del]

text \<open>
  The second loop. One round picks \<open>smallest\<close> among \<open>t\<close> and the children of \<open>pos\<close> that
  lie below \<^verbatim>\<open>tend = _t + _nt\<close>:
  \<^verbatim>\<open>smallest = t; tp = _t + 2*pos + 1;
  if (tp < tend && !timercmp(&tp[0]->expiry, &smallest->expiry, >)) smallest = tp[0];
  if (tp + 1 < tend && !timercmp(&tp[1]->expiry, &smallest->expiry, >))
  smallest = tp[1], tp++;\<close>
  then stores it, \<^verbatim>\<open>smallest->u.schedpos = pos; _t[pos] = smallest;\<close>, and stops when
  \<^verbatim>\<open>smallest == t\<close> or goes on from \<^verbatim>\<open>pos = tp - _t\<close>.
\<close>

definition smallest_child :: "nat \<Rightarrow> addr \<Rightarrow> driver \<Rightarrow> addr \<times> nat" where
  "smallest_child pos t d =
     (let tp = 2 * pos + 1;
          s1 = (if tp < length (d_t d)
                   \<and> \<not> timercmp_gt (expiry (timers d (d_t d ! tp))) (expiry (timers d t))
                then d_t d ! tp else t)
      in if tp + 1 < length (d_t d)
            \<and> \<not> timercmp_gt (expiry (timers d (d_t d ! (tp + 1)))) (expiry (timers d s1))
         then (d_t d ! (tp + 1), tp + 1) else (s1, tp))"

definition place :: "nat \<Rightarrow> addr \<Rightarrow> driver \<Rightarrow> driver" where
  "place pos smallest d =
     (let d1 = d\<lparr>timers := (timers d)(smallest := (timers d smallest)\<lparr>u := Schedpos pos\<rparr>)\<rparr>
      in d1\<lparr>d_t := (d_t d1)[pos := smallest]\<rparr>)"

lemma smallest_child_bounds:
  "smallest_child pos t d = (s, tp) \<Longrightarrow> s \<noteq> t \<Longrightarrow> pos < tp \<and> tp < length (d_t d)"
  by (auto simp: smallest_child_def Let_def split: if_splits)

lemma length_place [simp]: "length (d_t (place pos s d)) = length (d_t d)"
  by (simp add: place_def Let_def)

function sift_down :: "nat \<Rightarrow> addr \<Rightarrow> driver \<Rightarrow> driver" where
  "sift_down pos t d =
     (case smallest_child pos t d of
        (smallest, tp) \<Rightarrow>
          if smallest = t then place pos smallest d
          else sift_down tp t (place pos smallest d))"
  by pat_completeness auto
termination
  by (relation "measure (\<lambda>(pos, t, d). length (d_t d) - pos)")
     (auto dest: smallest_child_bounds [OF sym])

declare sift_down.simps [simp del]

definition timer_reheapify_from :: "nat \<Rightarrow> addr \<Rightarrow> bool \<Rightarrow> driver \<Rightarrow> driver" where
  "timer_reheapify_from pos t will_delete d =
     (case sift_up pos t d of (pos1, d1) \<Rightarrow> sift_down pos1 t d1)"

lemma length_sift_up_step [simp]: "length (d_t (sift_up_step pos d)) = length (d_t d)"
  by (simp add: sift_up_step_def Let_def)

lemma length_sift_up: "sift_up pos t d = (pos1, d1) \<Longrightarrow> length (d_t d1) = length (d_t d)"
proof (induction pos t d arbitrary: pos1 d1 rule: sift_up.induct)
  case (1 pos t d)
  show ?case
  proof (cases "0 < pos \<and> timercmp_gt (expiry (timers d (d_t d ! ((pos - 1) div 2))))
                                 (expiry (timers d t))")
    case True
    with "1.prems" have "sift_up ((pos - 1) div 2) t (sift_up_step pos d) = (pos1, d1)"
      by (subst (asm) sift_up.simps) simp
    from "1.IH" [OF True this] show ?thesis by simp
  next
    case False
    with "1.prems" show ?thesis by (subst (asm) sift_up.simps) auto
  qed
qed

lemma length_sift_down: "length (d_t (sift_down pos t d)) = length (d_t d)"
proof (induction pos t d rule: sift_down.induct)
  case (1 pos t d)
  obtain s tp where sc: "smallest_child pos t d = (s, tp)" by (cases "smallest_child pos t d")
  show ?case
  proof (cases "s = t")
    case True
    with sc show ?thesis by (subst sift_down.simps) simp
  next
    case False
    from "1.IH" [OF sc [symmetric] False] sc False show ?thesis
      by (subst sift_down.simps) simp
  qed
qed

lemma length_timer_reheapify_from [simp]:
  "length (d_t (timer_reheapify_from pos t wd d)) = length (d_t d)"
  by (auto simp: timer_reheapify_from_def length_sift_down dest: length_sift_up
      split: prod.splits)

subsection \<open>Registering events\<close>

text \<open>
  \<^verbatim>\<open>expand_fds(fd)\<close>: \<^verbatim>\<open>ncap = (_fdcap ? _fdcap * 2 : 16); while (fd*2 >= ncap) ncap *= 2;\<close>
  then the old entries are copied and every new entry is a default \<^verbatim>\<open>event<>()\<close>, the dead
  event. The loop runs with \<open>ncap\<close> at least 16; the guard \<open>0 < ncap\<close> is what makes the
  recursion total. The overflow of \<^verbatim>\<open>ncap\<close> that the source notes is not modelled.
\<close>

function grow_cap :: "nat \<Rightarrow> nat \<Rightarrow> nat" where
  "grow_cap fd ncap = (if 0 < ncap \<and> fd * 2 \<ge> ncap then grow_cap fd (ncap * 2) else ncap)"
  by pat_completeness auto
termination
  by (relation "measure (\<lambda>(fd, ncap). fd * 2 + 1 - ncap)") auto

declare grow_cap.simps [simp del]

definition expand_fds :: "nat \<Rightarrow> driver \<Rightarrow> driver" where
  "expand_fds fd d =
     (let ncap = grow_cap fd (if length (d_fd d) \<noteq> 0 then length (d_fd d) * 2 else 16)
      in d\<lparr>d_fd := d_fd d @ replicate (ncap - length (d_fd d)) dead_event\<rparr>)"

text \<open>
  \<^verbatim>\<open>at_fd(fd, write, trigger)\<close>: \<^verbatim>\<open>if (fd*2 >= _fdcap) expand_fds(fd);
  _fd[fd*2+write] = trigger; fd_set *fset = (write ? &_writefds : &_readfds);
  if (trigger) { FD_SET(fd, fset); if (fd >= _nfds) _nfds = fd + 1; } else FD_CLR(fd, fset);\<close>
\<close>

definition at_fd :: "nat \<Rightarrow> bool \<Rightarrow> addr \<Rightarrow> driver \<Rightarrow> driver" where
  "at_fd fd write e d =
     (let d1 = (if fd * 2 \<ge> length (d_fd d) then expand_fds fd d else d);
          d2 = d1\<lparr>d_fd := (d_fd d1)[fd * 2 + (if write then 1 else 0) := e]\<rparr>
      in if event_bool e d2
         then (let d3 = (if write then d2\<lparr>d_writefds := insert fd (d_writefds d2)\<rparr>
                         else d2\<lparr>d_readfds := insert fd (d_readfds d2)\<rparr>)
               in if fd \<ge> d_nfds d3 then d3\<lparr>d_nfds := fd + 1\<rparr> else d3)
         else (if write then d2\<lparr>d_writefds := d_writefds d2 - {fd}\<rparr>
               else d2\<lparr>d_readfds := d_readfds d2 - {fd}\<rparr>))"


subsection \<open>One turn\<close>

text \<open>
  What \<^verbatim>\<open>once()\<close> does with a timer taken off the heap:
  \<^verbatim>\<open>t->~ttimer(); t->u.next = _tfree; _tfree = t;\<close>
\<close>

definition free_timer :: "addr \<Rightarrow> driver \<Rightarrow> driver" where
  "free_timer t d =
     d\<lparr>timers := (timers d)(t := (timers d t)\<lparr>u := Next (d_tfree d)\<rparr>), d_tfree := Some t\<rparr>"

text \<open>\<^verbatim>\<open>timer_reheapify_from(0, _t[_nt - 1], true); _nt--;\<close>\<close>

definition pop_timer :: "driver \<Rightarrow> driver" where
  "pop_timer d =
     (let d1 = timer_reheapify_from 0 (d_t d ! (length (d_t d) - 1)) True d
      in d1\<lparr>d_t := butlast (d_t d1)\<rparr>)"

lemma length_pop_timer [simp]: "length (d_t (pop_timer d)) = length (d_t d) - 1"
  by (simp add: pop_timer_def Let_def)

lemma d_t_free_timer [simp]: "d_t (free_timer t d) = d_t d"
  by (simp add: free_timer_def)

lemma complete_driver_fields [simp]:
  "d_t (snd (complete e v d)) = d_t d" "d_asap (snd (complete e v d)) = d_asap d"
  "d_nfds (snd (complete e v d)) = d_nfds d" "trace (snd (complete e v d)) = trace d"
  "d_fd (snd (complete e v d)) = d_fd d" "timers (snd (complete e v d)) = timers d"
  "d_now (snd (complete e v d)) = d_now d"
  by (simp_all add: complete_def split: option.splits)

lemma log_fields [simp]:
  "d_t (log a d) = d_t d" "d_asap (log a d) = d_asap d" "d_nfds (log a d) = d_nfds d"
  "unblockedq (log a d) = unblockedq d" "trace (log a d) = trace d @ [a]"
  "timers (log a d) = timers d" "d_now (log a d) = d_now d" "d_fd (log a d) = d_fd d"
  by (simp_all add: log_def)

text \<open>
  \<^verbatim>\<open>// get rid of initial cancelled timers\<close>:
  \<^verbatim>\<open>while (_nt > 0 && (t = _t[0], !t->trigger)) { timer_reheapify_from(0, _t[_nt - 1], true);
  _nt--; t->~ttimer(); t->u.next = _tfree; _tfree = t; }\<close>
\<close>

function drop_cancelled_timers :: "driver \<Rightarrow> driver" where
  "drop_cancelled_timers d =
     (if 0 < length (d_t d) \<and> \<not> event_bool (t_trigger (timers d (d_t d ! 0))) d
      then drop_cancelled_timers (free_timer (d_t d ! 0) (pop_timer d))
      else d)"
  by pat_completeness auto
termination
  by (relation "measure (\<lambda>d. length (d_t d))") auto

declare drop_cancelled_timers.simps [simp del]

text \<open>
  \<^verbatim>\<open>// determine timeout\<close>:
  \<^verbatim>\<open>if (_nasap > 0 || (_nt > 0 && !timercmp(&_t[0]->expiry, &now, >)) || sig_any_active)
  { timerclear(&to); toptr = &to; } else if (_nt == 0) toptr = 0;
  else { timersub(&_t[0]->expiry, &now, &to); toptr = &to; }\<close>
  (the last branch also prints the heap to \<^verbatim>\<open>stderr\<close>).
\<close>

definition determine_timeout :: "driver \<Rightarrow> timeval option" where
  "determine_timeout d =
     (if 0 < length (d_asap d)
         \<or> (0 < length (d_t d) \<and> \<not> timercmp_gt (expiry (timers d (d_t d ! 0))) (d_now d))
         \<or> sig_any_active d
      then Some timerclear
      else if length (d_t d) = 0 then None
      else Some (timersub (expiry (timers d (d_t d ! 0))) (d_now d)))"

text \<open>
  \<^verbatim>\<open>// get rid of dead descriptors\<close>:
  \<^verbatim>\<open>while (_nfds && !_fd[_nfds*2 - 2] && !_fd[_nfds*2 - 1]) _nfds--;\<close>
\<close>

function drop_dead_descriptors :: "driver \<Rightarrow> driver" where
  "drop_dead_descriptors d =
     (if d_nfds d \<noteq> 0 \<and> \<not> event_bool (d_fd d ! (d_nfds d * 2 - 2)) d
         \<and> \<not> event_bool (d_fd d ! (d_nfds d * 2 - 1)) d
      then drop_dead_descriptors (d\<lparr>d_nfds := d_nfds d - 1\<rparr>)
      else d)"
  by pat_completeness auto
termination
  by (relation "measure d_nfds") auto

declare drop_dead_descriptors.simps [simp del]

text \<open>
  The arguments of \<^verbatim>\<open>select\<close>: \<^verbatim>\<open>fd_set rfds = _readfds; fd_set wfds = _writefds;
  int nfds = _nfds; if (sig_pipe[0] >= 0) { FD_SET(sig_pipe[0], &rfds);
  if (sig_pipe[0] > nfds) nfds = sig_pipe[0] + 1; }\<close>
\<close>

definition select_nfds :: "driver \<Rightarrow> int" where
  "select_nfds d =
     (if sig_pipe0 d \<ge> 0 \<and> sig_pipe0 d > int (d_nfds d) then sig_pipe0 d + 1
      else int (d_nfds d))"

definition select_rfds :: "driver \<Rightarrow> nat set" where
  "select_rfds d =
     (if sig_pipe0 d \<ge> 0 then insert (nat (sig_pipe0 d)) (d_readfds d) else d_readfds d)"

text \<open>
  Modelled from the spec: \<^verbatim>\<open>_rendezvous_base::_run()\<close> is not among the sources. The
  specification: the rendezvous leaves the unblocked queue, its parked-task pointer is
  cleared and the task's activator is invoked. What the task does when it runs is user
  code and is outside the model; the trace records the run.
\<close>

definition rendezvous_run :: "addr \<Rightarrow> driver \<Rightarrow> driver" where
  "rendezvous_run r d =
     log (Run r) (d\<lparr>unblockedq := tl (unblockedq d), parked := (parked d)(r := None)\<rparr>)"

text \<open>\<^verbatim>\<open>while (_rendezvous_base *r = _rendezvous_base::unblocked) r->_run();\<close>\<close>

function run_unblocked :: "driver \<Rightarrow> driver" where
  "run_unblocked d =
     (case unblockedq d of
        [] \<Rightarrow> d
      | r # rest \<Rightarrow> run_unblocked (rendezvous_run r d))"
  by pat_completeness auto
termination
  by (relation "measure (\<lambda>d. length (unblockedq d))") (auto simp: rendezvous_run_def)

declare run_unblocked.simps [simp del]

text \<open>
  \<^verbatim>\<open>// check signals\<close>: for every \<open>sig\<close> below \<^verbatim>\<open>NSIGNALS\<close>,
  \<^verbatim>\<open>if (sig_active[sig]) { sig_active[sig] = 0; sig_handlers[sig].trigger();
  sigaddset(&sigs_unblock, sig); }\<close>
  The second component is \<^verbatim>\<open>sigs_unblock\<close>.
\<close>

definition check_signal :: "nat \<Rightarrow> driver \<times> nat list \<Rightarrow> driver \<times> nat list" where
  "check_signal sig ds =
     (case ds of (d, sigs_unblock) \<Rightarrow>
        if sig_active d ! sig
        then (log (TriggerSignal sig (sig_handlers d ! sig))
                (trigger0 (sig_handlers d ! sig) (d\<lparr>sig_active := (sig_active d)[sig := False]\<rparr>)),
              sigs_unblock @ [sig])
        else (d, sigs_unblock))"

text \<open>
  \<^verbatim>\<open>// run signals\<close>: \<^verbatim>\<open>if (sig_any_active) { sig_any_active = 0; sigemptyset(&sigs_unblock);\<close>
  the loop over the signals;
  \<^verbatim>\<open>while (_rendezvous_base *r = _rendezvous_base::unblocked) r->_run();
  sigprocmask(SIG_UNBLOCK, &sigs_unblock, 0);
  while (read(sig_pipe[0], crap, 64) > 0) /* do nothing */; }\<close>
  Signals that arrive while the turn runs are not modelled.
\<close>

definition run_signals :: "driver \<Rightarrow> driver" where
  "run_signals d =
     (if sig_any_active d
      then (case fold check_signal [0..<NSIGNALS] (d\<lparr>sig_any_active := False\<rparr>, []) of
              (d1, sigs_unblock) \<Rightarrow>
                log ReadPipe (log (Sigprocmask_unblock sigs_unblock) (run_unblocked d1)))
      else d)"

text \<open>
  \<^verbatim>\<open>// run asaps\<close>:
  \<^verbatim>\<open>while (_nasap > 0) { --_nasap; _asap[_nasap].trigger(); _asap[_nasap].~event(); }\<close>
\<close>

function run_asaps :: "driver \<Rightarrow> driver" where
  "run_asaps d =
     (if 0 < length (d_asap d)
      then run_asaps
             (log (TriggerAsap (d_asap d ! (length (d_asap d) - 1)))
                (trigger0 (d_asap d ! (length (d_asap d) - 1))
                   (d\<lparr>d_asap := butlast (d_asap d)\<rparr>)))
      else d)"
  by pat_completeness auto
termination
  by (relation "measure (\<lambda>d. length (d_asap d))") (auto simp: trigger0_def)

declare run_asaps.simps [simp del]

text \<open>
  \<^verbatim>\<open>// run the file descriptors\<close>, one round of the loop:
  \<^verbatim>\<open>if (FD_ISSET(fd, &rfds)) { FD_CLR(fd, &_readfds); _fd[fd*2].trigger(); }
  if (FD_ISSET(fd, &wfds)) { FD_CLR(fd, &_writefds); _fd[fd*2+1].trigger(); }\<close>
\<close>

definition run_fd :: "nat \<Rightarrow> nat set \<Rightarrow> nat set \<Rightarrow> driver \<Rightarrow> driver" where
  "run_fd fd rfds wfds d =
     (let d1 = (if fd \<in> rfds
                then log (TriggerFd fd False (d_fd d ! (fd * 2)))
                       (trigger0 (d_fd d ! (fd * 2)) (d\<lparr>d_readfds := d_readfds d - {fd}\<rparr>))
                else d)
      in if fd \<in> wfds
         then log (TriggerFd fd True (d_fd d1 ! (fd * 2 + 1)))
                (trigger0 (d_fd d1 ! (fd * 2 + 1)) (d1\<lparr>d_writefds := d_writefds d1 - {fd}\<rparr>))
         else d1)"

lemma d_nfds_run_fd [simp]: "d_nfds (run_fd fd rfds wfds d) = d_nfds d"
  by (simp add: run_fd_def Let_def trigger0_def)

text \<open>\<^verbatim>\<open>for (int fd = 0; fd < _nfds; fd++)\<close>\<close>

function run_fds :: "nat \<Rightarrow> nat set \<Rightarrow> nat set \<Rightarrow> driver \<Rightarrow> driver" where
  "run_fds fd rfds wfds d =
     (if fd < d_nfds d then run_fds (fd + 1) rfds wfds (run_fd fd rfds wfds d) else d)"
  by pat_completeness auto
termination
  by (relation "measure (\<lambda>(fd, rfds, wfds, d). d_nfds d - fd)") auto

declare run_fds.simps [simp del]

text \<open>
  \<^verbatim>\<open>// run the timers that worked\<close>, after \<^verbatim>\<open>gettimeofday(&now, 0)\<close>:
  \<^verbatim>\<open>while (_nt > 0 && (t = _t[0], !timercmp(&t->expiry, &now, >))) {
  timer_reheapify_from(0, _t[_nt - 1], true); _nt--; t->trigger.trigger(); t->~ttimer();
  t->u.next = _tfree; _tfree = t; }\<close>
\<close>

function run_timers :: "driver \<Rightarrow> driver" where
  "run_timers d =
     (if 0 < length (d_t d) \<and> \<not> timercmp_gt (expiry (timers d (d_t d ! 0))) (d_now d)
      then run_timers
             (free_timer (d_t d ! 0)
                (log (TriggerTimer (d_t d ! 0) (t_trigger (timers (pop_timer d) (d_t d ! 0))))
                   (trigger0 (t_trigger (timers (pop_timer d) (d_t d ! 0))) (pop_timer d))))
      else d)"
  by pat_completeness auto
termination
  by (relation "measure (\<lambda>d. length (d_t d))") (auto simp: trigger0_def)

declare run_timers.simps [simp del]

text \<open>
  \<^verbatim>\<open>driver::once()\<close>. The outcome of \<^verbatim>\<open>select\<close> and the time \<^verbatim>\<open>gettimeofday\<close> reads
  are the environment's: \<open>sel\<close> maps the arguments of the call to its outcome, \<open>clock\<close>
  is the time read. \<^verbatim>\<open>select\<close> overwrites \<^verbatim>\<open>rfds\<close> and \<^verbatim>\<open>wfds\<close> and its return value is
  stored in \<^verbatim>\<open>nfds\<close>; \<^verbatim>\<open>once()\<close> returns nothing and never reads \<^verbatim>\<open>errno\<close>.
\<close>

definition once :: "(int \<Rightarrow> nat set \<Rightarrow> nat set \<Rightarrow> timeval option \<Rightarrow> select_result)
                     \<Rightarrow> timeval \<Rightarrow> driver \<Rightarrow> driver" where
  "once sel clock d =
     (let d1 = drop_cancelled_timers d;
          toptr = determine_timeout d1;
          d2 = drop_dead_descriptors d1;
          res = sel (select_nfds d2) (select_rfds d2) (d_writefds d2) toptr;
          d3 = log (Select (select_nfds d2) (select_rfds d2) (d_writefds d2) toptr) d2;
          d4 = run_signals d3;
          d5 = run_asaps d4;
          d6 = (if sel_ret res \<ge> 0 then run_fds 0 (sel_rfds res) (sel_wfds res) d5 else d5);
          d7 = log Gettimeofday (d6\<lparr>d_now := clock\<rparr>);
          d8 = run_timers d7
      in run_unblocked d8)"

subsection \<open>Reading a trace\<close>

text \<open>The kind of an entry of the trace, and the entries a turn adds to it.\<close>

fun is_signal :: "action \<Rightarrow> bool" where
  "is_signal (TriggerSignal sig e) = True"
| "is_signal a = False"


fun is_fd :: "action \<Rightarrow> bool" where
  "is_fd (TriggerFd fd write e) = True"
| "is_fd a = False"

fun is_timer :: "action \<Rightarrow> bool" where
  "is_timer (TriggerTimer t e) = True"
| "is_timer a = False"

fun is_run :: "action \<Rightarrow> bool" where
  "is_run (Run r) = True"
| "is_run a = False"

subsection \<open>Frames\<close>

text \<open>
  Two relations between states of the driver, used to say what an operation leaves alone:
  \<open>heap_step\<close> changes only the timer heap, the timer objects and the free list;
  \<open>mono\<close> keeps every empty event empty.
\<close>

definition heap_step :: "driver \<Rightarrow> driver \<Rightarrow> bool" where
  "heap_step d d' \<longleftrightarrow> (\<exists>ts tm tf. d' = d\<lparr>d_t := ts, timers := tm, d_tfree := tf\<rparr>)"

definition mono :: "driver \<Rightarrow> driver \<Rightarrow> bool" where
  "mono d d' \<longleftrightarrow> (\<forall>e. b_r (ev d e) = None \<longrightarrow> b_r (ev d' e) = None)"

subsection \<open>Example states of the driver\<close>

text \<open>
  Event 1 is armed on rendezvous 7 and handles signal 2, event 2 is armed on rendezvous 8
  and is in the asap array, event 3 is armed on rendezvous 9 and waits for descriptor 0 to
  be readable, event 4 is armed on rendezvous 9 and belongs to the only timer, which
  expires at 10.000500 s; every other event is empty. Closure 70 is parked on rendezvous 7,
  no rendezvous is unblocked, the time is 9.000800 s, and there is no signal pipe.
  In \<open>ex_driver_sig\<close> signal 2 is pending as well.
\<close>

definition ex_armed :: "addr \<Rightarrow> event_superbase" where
  "ex_armed r = \<lparr>b_refcount = 1, b_r = Some r, b_r_name = 0, b_at_trigger = None\<rparr>"

definition ex_driver :: driver where
  "ex_driver = \<lparr>
     ev = (\<lambda>_. ex_empty_event)(1 := ex_armed 7, 2 := ex_armed 8, 3 := ex_armed 9, 4 := ex_armed 9),
     parked = (\<lambda>_. None)(7 := Some 70),
     unblockedq = [], completions = [], hooks_fired = [],
     d_t = [50],
     timers = (\<lambda>_. \<lparr>expiry = \<lparr>tv_sec = 10, tv_usec = 500\<rparr>, t_trigger = 4, u = Schedpos 0\<rparr>),
     d_tfree = None,
     d_fd = [3, 0, 0, 0, 0, 0, 0, 0, 0, 0, 0, 0, 0, 0, 0, 0],
     d_nfds = 1, d_readfds = {0}, d_writefds = {},
     d_asap = [2],
     d_now = \<lparr>tv_sec = 9, tv_usec = 800\<rparr>,
     sig_pipe0 = - 1, sig_pipe1 = - 1,
     sig_any_active = False,
     sig_active = replicate 32 False,
     sig_handlers = (replicate 32 0)[2 := 1],
     trace = []\<rparr>"


text \<open>
  Three outcomes of \<^verbatim>\<open>select\<close>: descriptor 0 is readable; the call fails with
  \<^verbatim>\<open>EINTR\<close>; the call fails with \<^verbatim>\<open>EIO\<close>. A failed call leaves the sets as they were
  passed.
\<close>

definition sel_ready :: "int \<Rightarrow> nat set \<Rightarrow> nat set \<Rightarrow> timeval option \<Rightarrow> select_result" where
  "sel_ready nfds rfds wfds toptr = \<lparr>sel_ret = 1, sel_errno = 0, sel_rfds = {0}, sel_wfds = {}\<rparr>"


definition ex_clock :: timeval where
  "ex_clock = \<lparr>tv_sec = 9, tv_usec = 900\<rparr>"

section \<open>Properties of the file-descriptor wrapper\<close>

text \<open>
  Claim C9. For every fd wrapper the three validity observers agree: \<^verbatim>\<open>valid()\<close> is true
  iff the boolean conversion is true iff \<^verbatim>\<open>error()\<close> returns 0 (and \<^verbatim>\<open>operator!\<close> is
  their negation). A default-constructed fd and \<^verbatim>\<open>fd(-EBADF)\<close> are both invalid with
  \<^verbatim>\<open>error() == -EBADF\<close>; \<^verbatim>\<open>fd(v)\<close> for any other negative \<^verbatim>\<open>v\<close> is invalid with
  \<^verbatim>\<open>error() == v\<close>.
\<close>

theorem fd_observers_agree:
  "(valid f \<longleftrightarrow> fd_bool f) \<and> (fd_bool f \<longleftrightarrow> error f = 0) \<and> (fd_not f \<longleftrightarrow> \<not> valid f)
   \<and> \<not> valid fd_default \<and> \<not> fd_bool fd_default \<and> error fd_default = - EBADF
   \<and> \<not> valid (fd_of_int (- EBADF)) \<and> \<not> fd_bool (fd_of_int (- EBADF))
   \<and> error (fd_of_int (- EBADF)) = - EBADF
   \<and> (v < 0 \<and> v \<noteq> - EBADF \<longrightarrow>
        \<not> valid (fd_of_int v) \<and> \<not> fd_bool (fd_of_int v) \<and> error (fd_of_int v) = v)"
  by (auto simp: valid_def fd_bool_def fd_not_def error_def fd_default_def fd_of_int_def
      fdimp_new_def EBADF_def split: option.splits)

theorem fd_observers_agree_witness:
  "(valid (fd_of_int 3) \<longleftrightarrow> fd_bool (fd_of_int 3)) \<and> error (fd_of_int 3) = 0
   \<and> (-2::int) < 0 \<and> (-2::int) \<noteq> - EBADF
   \<and> \<not> valid (fd_of_int (-2)) \<and> \<not> fd_bool (fd_of_int (-2)) \<and> error (fd_of_int (-2)) = -2"
  using fd_observers_agree [of "fd_of_int 3" "-2"] fd_observers_agree [of "fd_of_int (-2)" "-2"]
  by (simp add: EBADF_def valid_def fd_bool_def fd_not_def error_def fd_default_def
      fd_of_int_def fdimp_new_def)

section \<open>Properties of the unblocked queue\<close>

text \<open>
  Only the \<^verbatim>\<open>unblocked_next_\<close> fields of the members of a chain matter to it; no member
  holds the sentinel; a pointer starts at most one chain.
\<close>

lemma is_chain_cong:
  "(\<And>x. x \<in> set xs \<Longrightarrow> unblocked_next (h x) = unblocked_next (h' x)) \<Longrightarrow>
   is_chain h p xs = is_chain h' p xs"
  by (induction xs arbitrary: p) auto

lemma is_chain_next_not_sentinel:
  "is_chain h p xs \<Longrightarrow> x \<in> set xs \<Longrightarrow> unblocked_next (h x) \<noteq> RSentinel"
proof (induction xs arbitrary: p)
  case Nil
  then show ?case by simp
next
  case (Cons y ys)
  show ?case
  proof (cases "x = y")
    case True
    from Cons.prems have "is_chain h (unblocked_next (h y)) ys" by simp
    then show ?thesis using True by (cases ys) auto
  next
    case False
    with Cons show ?thesis by auto
  qed
qed

lemma is_chain_unique: "is_chain h p xs \<Longrightarrow> is_chain h p ys \<Longrightarrow> xs = ys"
proof (induction xs arbitrary: p ys)
  case Nil
  then show ?case by (cases ys) auto
next
  case (Cons x xs)
  then show ?case by (cases ys) auto
qed

lemma chain_list_is_chain: "is_chain h p xs \<Longrightarrow> chain_list (length xs) h p = Some xs"
  by (induction xs arbitrary: p) auto

lemma is_chain_snoc:
  "is_chain h p xs \<Longrightarrow> xs \<noteq> [] \<Longrightarrow> distinct xs \<Longrightarrow> r \<notin> set xs \<Longrightarrow>
   is_chain (h(last xs := (h (last xs))\<lparr>unblocked_next := RPtr r\<rparr>,
               r := (h r)\<lparr>unblocked_next := RNull\<rparr>)) p (xs @ [r])"
proof (induction xs arbitrary: p)
  case Nil
  then show ?case by simp
next
  case (Cons x xs)
  show ?case
  proof (cases "xs = []")
    case True
    with Cons.prems show ?thesis by auto
  next
    case False
    with Cons show ?thesis by auto
  qed
qed

lemma queue_ok_unblock:
  assumes "queue_ok s xs" "blocked_closure (rendezvous s r) \<noteq> None"
    "unblocked_next (rendezvous s r) = RSentinel"
  shows "queue_ok (unblock r s) (xs @ [r])"
proof -
  from assms have notin: "r \<notin> set xs"
    using is_chain_next_not_sentinel unfolding queue_ok_def by blast
  show ?thesis
  proof (cases "xs = []")
    case True
    with assms show ?thesis
      by (auto simp: queue_ok_def unblock_def store_rpptr_def Let_def)
  next
    case False
    from assms False notin
    have "is_chain ((rendezvous s)(last xs := (rendezvous s (last xs))\<lparr>unblocked_next := RPtr r\<rparr>,
               r := (rendezvous s r)\<lparr>unblocked_next := RNull\<rparr>)) (unblocked s) (xs @ [r])"
      unfolding queue_ok_def by (intro is_chain_snoc) auto
    moreover have "last xs \<noteq> r" using False notin last_in_set by metis
    ultimately show ?thesis using assms False notin
      by (auto simp: queue_ok_def unblock_def store_rpptr_def Let_def list_all_iff fun_upd_twist)
  qed
qed

lemma unblock_noop:
  "unblocked_next (rendezvous s r) \<noteq> RSentinel \<or> blocked_closure (rendezvous s r) = None \<Longrightarrow> unblock r s = s"
  by (auto simp: unblock_def)

lemma queue_ok_block:
  assumes "queue_ok s xs" "block r c pos s = Inr s'"
  shows "queue_ok s' xs \<and> r \<notin> set xs"
proof -
  from assms have nb: "blocked_closure (rendezvous s r) = None" and
    s': "s' = s\<lparr>rendezvous := (rendezvous s)
                     (r := (rendezvous s r)\<lparr>blocked_closure := Some c,
                                                 unblocked_next := RSentinel\<rparr>),
                  closures := (closures s)
                     (c := (closures s c)\<lparr>tamer_block_position := pos\<rparr>)\<rparr>"
    by (auto simp: block_def split: if_splits)
  from assms(1) nb have notin: "r \<notin> set xs" by (auto simp: queue_ok_def list_all_iff)
  have "is_chain (rendezvous s') (unblocked s') xs = is_chain (rendezvous s) (unblocked s) xs"
    unfolding s' using notin by (simp) (rule is_chain_cong, auto)
  with assms(1) notin show ?thesis by (auto simp: queue_ok_def s' list_all_iff)
qed

lemma queue_ok_block_debug:
  assumes "queue_ok s xs" "block_debug r c pos file line s = Inr s'"
  shows "queue_ok s' xs \<and> r \<notin> set xs"
proof -
  from assms(2) obtain s1 where b: "block r c (- pos) s = Inr s1" and
     s': "s' = s1\<lparr>closures := (closures s1)
                      (c := (closures s1 c)\<lparr>tamer_blocked_file := file,
                                            tamer_blocked_line := line\<rparr>)\<rparr>"
    by (auto simp: block_debug_def split: sum.splits)
  from queue_ok_block[OF assms(1) b] show ?thesis by (auto simp: queue_ok_def s')
qed

lemma queue_ok_pop:
  assumes "queue_ok s xs" "pop_unblocked s = Inr (p, s')"
  shows "(xs = [] \<and> p = RNull \<and> s' = s) \<or> (\<exists>x ys. xs = x # ys \<and> p = RPtr x \<and> queue_ok s' ys
      \<and> rendezvous s' = rendezvous s)"
proof (cases xs)
  case Nil
  with assms show ?thesis by (auto simp: queue_ok_def pop_unblocked_def)
next
  case (Cons x ys)
  with assms show ?thesis
    by (cases ys) (auto simp: queue_ok_def pop_unblocked_def Let_def split: if_splits)
qed

lemma queue_ok_pop_total:
  assumes "queue_ok s xs"
  shows "\<exists>p s'. pop_unblocked s = Inr (p, s')"
  using assms by (cases xs) (auto simp: queue_ok_def pop_unblocked_def Let_def)

lemma queue_ok_run:
  assumes "is_chain (rendezvous s) (unblocked s) xs" "r \<notin> set xs" "run r s = Inr (c, s')"
  shows "is_chain (rendezvous s') (unblocked s') xs" 
proof -
  from assms(3) have s': "s' = s\<lparr>rendezvous := (rendezvous s)
                       (r := (rendezvous s r)\<lparr>blocked_closure := None\<rparr>)\<rparr>"
    by (auto simp: run_def split: option.splits)
  have "is_chain (rendezvous s') (unblocked s') xs = is_chain (rendezvous s) (unblocked s) xs"
    unfolding s' using assms(2) by simp (rule is_chain_cong, auto)
  with assms show ?thesis by simp
qed

lemma reachable_queue_ok: "reachable s \<Longrightarrow> \<exists>xs. queue_ok s xs"
proof (induction rule: reachable.induct)
  case (r_init s)
  then have "queue_ok s []" by (simp add: xinit_def queue_ok_def)
  then show ?case ..
next
  case (r_block s r c position s')
  then show ?case using queue_ok_block by blast
next
  case (r_block_debug s r c position fl ln s1)
  then show ?case using queue_ok_block_debug by blast
next
  case (r_unblock s r)
  then obtain xs where q: "queue_ok s xs" by blast
  show ?case
  proof (cases "blocked_closure (rendezvous s r) \<noteq> None \<and> unblocked_next (rendezvous s r) = RSentinel")
    case True
    with q queue_ok_unblock show ?thesis by blast
  next
    case False
    then have "unblock r s = s" by (auto simp: unblock_def)
    with q show ?thesis by auto
  qed
next
  case (r_pop s p s')
  then obtain xs where q: "queue_ok s xs" by blast
  from queue_ok_pop[OF q r_pop(2)] q show ?case by auto
next
  case (r_pop_run s r s1 c s2)
  then obtain xs where q: "queue_ok s xs" by blast
  from queue_ok_pop[OF q r_pop_run(2)] obtain ys where
    xs: "xs = r # ys" and q1: "queue_ok s1 ys" by auto
  from q xs have notin: "r \<notin> set ys" by (auto simp: queue_ok_def)
  from r_pop_run(3) have s2: "s2 = s1\<lparr>rendezvous := (rendezvous s1)
                       (r := (rendezvous s1 r)\<lparr>blocked_closure := None\<rparr>)\<rparr>"
    by (auto simp: run_def split: option.splits)
  from q1 have "is_chain (rendezvous s2) (unblocked s2) ys"
    using queue_ok_run[OF _ notin r_pop_run(3)] by (auto simp: queue_ok_def)
  with q1 notin have "queue_ok s2 ys"
    by (auto simp: queue_ok_def s2 list_all_iff)
  then show ?case ..
qed

text \<open>
  Claim C4, as the code has it. For a rendezvous \<open>r\<close> with no task parked,
  \<^verbatim>\<open>r.block(c, P)\<close> records \<open>c\<close> as the parked task of \<open>r\<close>, stores \<open>P\<close> as the resumption
  position of \<open>c\<close> (for a \<^verbatim>\<open>tamer_debug_closure\<close>: the unsigned negation of \<open>P\<close>, with the
  file and the line), and sets the next-pointer of \<open>r\<close> to the not-in-queue sentinel.
  It never links \<open>r\<close> into the unblocked queue, whether or not \<open>r\<close> has ready events: the
  queue is the one before the call and \<open>r\<close> is not in it; a later \<^verbatim>\<open>unblock()\<close> links
  \<open>r\<close> onto the tail. With a task already parked the assertion fails.
\<close>

theorem block_contract:
  "(blocked_closure (rendezvous s r) = None \<longrightarrow>
      (\<exists>s'. block r c P s = Inr s'
         \<and> blocked_closure (rendezvous s' r) = Some c
         \<and> tamer_block_position (closures s' c) = P
         \<and> unblocked_next (rendezvous s' r) = RSentinel
         \<and> ready (rendezvous s' r) = ready (rendezvous s r)
         \<and> unblocked s' = unblocked s \<and> unblocked_ptail s' = unblocked_ptail s
         \<and> (\<forall>q. q \<noteq> r \<longrightarrow> rendezvous s' q = rendezvous s q)
         \<and> (\<forall>xs. queue_ok s xs \<longrightarrow>
               r \<notin> set xs \<and> queue_ok s' xs \<and> queue_ok (unblock r s') (xs @ [r])))
      \<and> (\<exists>s'. block_debug r c P file line s = Inr s'
         \<and> blocked_closure (rendezvous s' r) = Some c
         \<and> tamer_block_position (closures s' c) = - P
         \<and> tamer_blocked_file (closures s' c) = file
         \<and> tamer_blocked_line (closures s' c) = line
         \<and> unblocked s' = unblocked s \<and> unblocked_ptail s' = unblocked_ptail s))
   \<and> (blocked_closure (rendezvous s r) \<noteq> None \<longrightarrow>
         block r c P s = Inl AssertionFailed
         \<and> block_debug r c P file line s = Inl AssertionFailed)"
proof (intro conjI impI)
  assume nb: "blocked_closure (rendezvous s r) = None"
  define s' where "s' = s\<lparr>rendezvous := (rendezvous s)
                     (r := (rendezvous s r)\<lparr>blocked_closure := Some c,
                                                 unblocked_next := RSentinel\<rparr>),
                  closures := (closures s)
                     (c := (closures s c)\<lparr>tamer_block_position := P\<rparr>)\<rparr>"
  have b: "block r c P s = Inr s'" using nb by (simp add: block_def s'_def)
  have q: "\<forall>xs. queue_ok s xs \<longrightarrow>
               r \<notin> set xs \<and> queue_ok s' xs \<and> queue_ok (unblock r s') (xs @ [r])"
  proof (intro allI impI)
    fix xs assume qo: "queue_ok s xs"
    from queue_ok_block[OF qo b] have 1: "queue_ok s' xs" "r \<notin> set xs" by auto
    have "queue_ok (unblock r s') (xs @ [r])"
      by (rule queue_ok_unblock[OF 1(1)]) (simp_all add: s'_def)
    with 1 show "r \<notin> set xs \<and> queue_ok s' xs \<and> queue_ok (unblock r s') (xs @ [r])" by simp
  qed
  show "\<exists>s'. block r c P s = Inr s'
         \<and> blocked_closure (rendezvous s' r) = Some c
         \<and> tamer_block_position (closures s' c) = P
         \<and> unblocked_next (rendezvous s' r) = RSentinel
         \<and> ready (rendezvous s' r) = ready (rendezvous s r)
         \<and> unblocked s' = unblocked s \<and> unblocked_ptail s' = unblocked_ptail s
         \<and> (\<forall>q. q \<noteq> r \<longrightarrow> rendezvous s' q = rendezvous s q)
         \<and> (\<forall>xs. queue_ok s xs \<longrightarrow>
               r \<notin> set xs \<and> queue_ok s' xs \<and> queue_ok (unblock r s') (xs @ [r]))"
    using b q by (intro exI[of _ s']) (simp add: s'_def)
  show "\<exists>s'. block_debug r c P file line s = Inr s'
         \<and> blocked_closure (rendezvous s' r) = Some c
         \<and> tamer_block_position (closures s' c) = - P
         \<and> tamer_blocked_file (closures s' c) = file
         \<and> tamer_blocked_line (closures s' c) = line
         \<and> unblocked s' = unblocked s \<and> unblocked_ptail s' = unblocked_ptail s"
    using nb by (simp add: block_debug_def block_def)
next
  assume "blocked_closure (rendezvous s r) \<noteq> None"
  then show "block r c P s = Inl AssertionFailed" by (simp add: block_def)
next
  assume "blocked_closure (rendezvous s r) \<noteq> None"
  then show "block_debug r c P file line s = Inl AssertionFailed"
    by (simp add: block_def block_debug_def)
qed

theorem block_contract_witness:
  "blocked_closure (rendezvous ex_state 0) = None
   \<and> ready (rendezvous ex_state 0) = Some 7
   \<and> queue_ok ex_state []
   \<and> map_sum id (\<lambda>s. blocked_closure (rendezvous s 0)) (block 0 3 5 ex_state) = Inr (Some 3)
   \<and> map_sum id (\<lambda>s. tamer_block_position (closures s 3)) (block 0 3 5 ex_state) = Inr 5
   \<and> map_sum id (queue_of 1) (block 0 3 5 ex_state) = Inr (Some [])
   \<and> queue_ok (unblock 0 (projr (block 0 3 5 ex_state))) [0]
   \<and> blocked_closure (rendezvous (projr (block 0 3 5 ex_state)) 0) \<noteq> None
   \<and> block 0 4 6 (projr (block 0 3 5 ex_state)) = Inl AssertionFailed"
  using block_contract [of ex_state 0 3 5 "''f.tt''" 12]
    block_contract [of "projr (block 0 3 5 ex_state)" 0 4 6 "''f.tt''" 12]
  by (simp add: ex_state_def ex_rendezvous_def ex_closure_def block_def block_debug_def
      queue_of_def queue_ok_def unblock_def store_rpptr_def)

text \<open>
  The claim as the specification words it fails: rendezvous 0 of \<open>ex_state\<close> has a ready
  event and no parked task, and after \<^verbatim>\<open>block\<close> the unblocked queue is still empty; and
  the position stored for a \<^verbatim>\<open>tamer_debug_closure\<close> blocked at 5 is \<open>2 ^ 32 - 5\<close>.
\<close>

theorem block_does_not_enqueue_counterexample: "ready (rendezvous ex_state 0) = Some 7
   \<and> blocked_closure (rendezvous ex_state 0) = None
   \<and> queue_of 1 ex_state = Some []
   \<and> map_sum id (queue_of 1) (block 0 3 5 ex_state) = Inr (Some [])
   \<and> map_sum id (\<lambda>s. tamer_block_position (closures s 3)) (block_debug 0 3 5 ''f.tt'' 12 ex_state)
        = Inr 4294967291"
  by (simp add: ex_state_def ex_rendezvous_def ex_closure_def block_def block_debug_def queue_of_def)

text \<open>
  Claim C8. In every state reached by \<^verbatim>\<open>block\<close>, \<^verbatim>\<open>unblock\<close>, \<^verbatim>\<open>pop_unblocked\<close> and the
  driver's pop-then-\<^verbatim>\<open>run\<close>, in any order, the unblocked queue is a null-terminated list
  with no rendezvous twice. \<^verbatim>\<open>unblock()\<close> changes nothing unless the next-pointer of the
  rendezvous holds the sentinel; when it enqueues, the rendezvous was not in the queue and
  goes to its tail.
\<close>

theorem unblocked_queue_distinct:
  "reachable s \<Longrightarrow>
     (\<exists>xs. is_chain (rendezvous s) (unblocked s) xs \<and> distinct xs
           \<and> queue_of (length xs) s = Some xs
           \<and> (blocked_closure (rendezvous s r) \<noteq> None
                \<and> unblocked_next (rendezvous s r) = RSentinel \<longrightarrow>
              r \<notin> set xs \<and> queue_of (Suc (length xs)) (unblock r s) = Some (xs @ [r])))
     \<and> (unblocked_next (rendezvous s r) \<noteq> RSentinel \<longrightarrow> unblock r s = s)"
proof -
  assume "reachable s"
  then obtain xs where q: "queue_ok s xs" using reachable_queue_ok by blast
  have 1: "is_chain (rendezvous s) (unblocked s) xs \<and> distinct xs
           \<and> queue_of (length xs) s = Some xs"
    using q chain_list_is_chain by (auto simp: queue_ok_def queue_of_def)
  have 2: "r \<notin> set xs \<and> queue_of (Suc (length xs)) (unblock r s) = Some (xs @ [r])"
    if h: "blocked_closure (rendezvous s r) \<noteq> None
                \<and> unblocked_next (rendezvous s r) = RSentinel"
  proof -
    from q h have "queue_ok (unblock r s) (xs @ [r])" by (intro queue_ok_unblock) auto
    then have "is_chain (rendezvous (unblock r s)) (unblocked (unblock r s)) (xs @ [r])"
          and "distinct (xs @ [r])"
      by (auto simp: queue_ok_def)
    then show ?thesis using chain_list_is_chain[of _ _ "xs @ [r]"] by (auto simp: queue_of_def)
  qed
  have 3: "unblocked_next (rendezvous s r) \<noteq> RSentinel \<longrightarrow> unblock r s = s"
    by (simp add: unblock_def)
  from 1 2 3 show ?thesis by blast
qed

lemma ex_run_reachable: "reachable ex_run"
proof -
  have r0: "reachable ex_state"
    by (rule r_init) (simp add: xinit_def ex_state_def ex_rendezvous_def)
  have b1: "block 1 10 5 ex_state = Inr (projr (block 1 10 5 ex_state))"
    by (simp add: block_def ex_state_def ex_rendezvous_def)
  note r1 = r_unblock[OF r_block[OF r0 b1], of 1]
  have b2: "block 2 11 6 (unblock 1 (projr (block 1 10 5 ex_state)))
     = Inr (projr (block 2 11 6 (unblock 1 (projr (block 1 10 5 ex_state)))))"
    by (simp add: block_def unblock_def store_rpptr_def ex_state_def ex_rendezvous_def)
  note r2 = r_unblock[OF r_unblock[OF r_block[OF r1 b2], of 2], of 1]
  then show ?thesis by (simp add: ex_run_def)
qed

lemma ex_run_queue: "queue_of 2 ex_run = Some [1, 2]"
  by (simp add: ex_run_def queue_of_def block_def unblock_def store_rpptr_def ex_state_def
      ex_rendezvous_def numeral_2_eq_2)

theorem unblocked_queue_distinct_witness:
  "reachable ex_run \<and> queue_of 2 ex_run = Some [1, 2] \<and> distinct [1::nat, 2]
   \<and> unblock 1 ex_run = ex_run"
  using unblocked_queue_distinct [OF ex_run_reachable, of 1] ex_run_reachable ex_run_queue
  by (simp add: ex_run_def  block_def unblock_def store_rpptr_def ex_state_def ex_rendezvous_def)

section \<open>Properties of the ready list of an explicit rendezvous\<close>

lemma e_chain_cong:
  "(\<And>x. x \<in> set xs \<Longrightarrow> e_r_next (h x) = e_r_next (h' x)) \<Longrightarrow>
   e_chain h p xs = e_chain h' p xs"
  by (induction xs arbitrary: p) auto

lemma dll_cong:
  "(\<And>x. x \<in> set xs \<Longrightarrow> e_r_next (h x) = e_r_next (h' x) \<and> e_r (h x) = e_r (h' x)
        \<and> e_r_pprev (h x) = e_r_pprev (h' x)) \<Longrightarrow>
   dll h r pp p xs = dll h' r pp p xs"
  by (induction xs arbitrary: p pp) auto

lemma dll_owner: "dll h r pp p xs \<Longrightarrow> x \<in> set xs \<Longrightarrow> e_r (h x) = Some r"
  by (induction xs arbitrary: p pp) auto

lemma e_chain_snoc:
  "e_chain h p xs \<Longrightarrow> xs \<noteq> [] \<Longrightarrow> distinct xs \<Longrightarrow> x \<notin> set xs \<Longrightarrow>
   e_chain (h(last xs := (h (last xs))\<lparr>e_r_next := Some x\<rparr>,
               x := ((h(last xs := (h (last xs))\<lparr>e_r_next := Some x\<rparr>)) x)\<lparr>e_r_next := None\<rparr>))
      p (xs @ [x])"
proof (induction xs arbitrary: p)
  case Nil
  then show ?case by simp
next
  case (Cons y ys)
  show ?case
  proof (cases "ys = []")
    case True
    with Cons.prems show ?thesis by auto
  next
    case False
    with Cons show ?thesis by auto
  qed
qed

lemma events_unlink: "events (unlink x s) = unlink_ev (events s) x"
  by (simp add: unlink_def unlink_ev_def store_epptr_def Let_def split: epptr.splits option.splits)

lemma unlink_ev_other:
  assumes "y \<noteq> x" "e_r_pprev (h x) \<noteq> PNext y" "e_r_next (h x) \<noteq> Some y"
  shows "unlink_ev h x y = h y"
  using assms by (auto simp: unlink_ev_def Let_def split: epptr.splits option.splits)

lemma unlink_ev_rid: "e_rid (unlink_ev h x y) = e_rid (h y)"
  by (auto simp: unlink_ev_def Let_def split: epptr.splits option.splits)

lemma dll_mid:
  "dll h r pp p (as @ x # bs) \<Longrightarrow>
   e_r_pprev (h x) = (if as = [] then pp else PNext (last as))
   \<and> e_r_next (h x) = (case bs of [] \<Rightarrow> None | n # _ \<Rightarrow> Some n)
   \<and> e_r (h x) = Some r"
proof (induction as arbitrary: pp p)
  case Nil
  then show ?case by (cases bs) auto
next
  case (Cons a as)
  from Cons.prems have "dll h r (PNext a) (e_r_next (h a)) (as @ x # bs)" by simp
  from Cons.IH [OF this] show ?case by (cases "as = []") auto
qed

lemma dll_unlink:
  assumes "dll h r pp p (as @ x # bs)" "distinct (as @ x # bs)"
    "\<And>a. pp = PNext a \<Longrightarrow> a \<notin> set (as @ x # bs)"
  shows "dll (unlink_ev h x) r pp (if as = [] then e_r_next (h x) else p) (as @ bs)"
  using assms
proof (induction as arbitrary: pp p)
  case Nil
  then have x: "p = Some x" "e_r_pprev (h x) = pp" and
    tl: "dll h r (PNext x) (e_r_next (h x)) bs" by auto
  show ?case
  proof (cases bs)
    case Nil
    with tl show ?thesis by simp
  next
    case (Cons n bs')
    with tl have n: "e_r_next (h x) = Some n" "e_r (h n) = Some r"
      and tl': "dll h r (PNext n) (e_r_next (h n)) bs'" by auto
    from Nil.prems(2) Cons have d: "n \<noteq> x" "n \<notin> set bs'" "x \<notin> set bs'" by auto
    have nota: "pp \<noteq> PNext n" "\<And>y. y \<in> set bs' \<Longrightarrow> pp \<noteq> PNext y"
      using Nil.prems(3) Cons by auto
    have un: "unlink_ev h x n = (h n)\<lparr>e_r_pprev := pp\<rparr>"
      using d nota x n by (auto simp: unlink_ev_def Let_def split: epptr.splits)
    have oth: "unlink_ev h x y = h y" if "y \<in> set bs'" for y
      using that d nota(2) [OF that] x n
      by (intro unlink_ev_other) auto
    have "dll (unlink_ev h x) r (PNext n) (e_r_next (h n)) bs'
            = dll h r (PNext n) (e_r_next (h n)) bs'"
      by (rule dll_cong) (simp add: oth)
    with tl' un n Cons show ?thesis by simp
  qed
next
  case (Cons a0 as')
  from Cons.prems(1) have a0: "p = Some a0" "e_r (h a0) = Some r" "e_r_pprev (h a0) = pp"
    and tl: "dll h r (PNext a0) (e_r_next (h a0)) (as' @ x # bs)" by auto
  from Cons.prems(2) have d: "distinct (as' @ x # bs)" "a0 \<notin> set (as' @ x # bs)" by auto
  have ih: "dll (unlink_ev h x) r (PNext a0)
              (if as' = [] then e_r_next (h x) else e_r_next (h a0)) (as' @ bs)"
    using Cons.IH [OF tl d(1)] d(2) by blast
  note mid = dll_mid [OF tl]
  have nx: "e_r_next (h x) \<noteq> Some a0" using mid d(2) by (cases bs) auto
  have ua: "unlink_ev h x a0 = (if as' = [] then (h a0)\<lparr>e_r_next := e_r_next (h x)\<rparr> else h a0)"
  proof (cases "as' = []")
    case True
    with mid have "e_r_pprev (h x) = PNext a0" by simp
    with True nx d(2) show ?thesis
      by (auto simp: unlink_ev_def Let_def split: option.splits)
  next
    case False
    with mid have pv: "e_r_pprev (h x) = PNext (last as')" by simp
    have "last as' \<noteq> a0" using False d(2) last_in_set by fastforce
    with pv nx d(2) False show ?thesis by (simp add: unlink_ev_other)
  qed
  show ?case using a0 ih ua by auto
qed

lemma store_epptr_fields:
  "rtype (rendezvous (store_epptr pp p s) q) = rtype (rendezvous s q)"
  "ready_ptail (rendezvous (store_epptr pp p s) q) = ready_ptail (rendezvous s q)"
  "blocked_closure (rendezvous (store_epptr pp p s) q) = blocked_closure (rendezvous s q)"
  "unblocked_next (rendezvous (store_epptr pp p s) q) = unblocked_next (rendezvous s q)"
  "unblocked (store_epptr pp p s) = unblocked s"
  "unblocked_ptail (store_epptr pp p s) = unblocked_ptail s"
  by (simp_all add: store_epptr_def split: epptr.splits)

lemma unblock_keeps:
  "events (unblock r s) = events s"
  "waiting (rendezvous (unblock r s) q) = waiting (rendezvous s q)"
  "ready (rendezvous (unblock r s) q) = ready (rendezvous s q)"
  "ready_ptail (rendezvous (unblock r s) q) = ready_ptail (rendezvous s q)"
  "rtype (rendezvous (unblock r s) q) = rtype (rendezvous s q)"
  by (auto simp: unblock_def store_rpptr_def Let_def split: rpptr.splits)

lemma fire_hook_keeps:
  "events (fire_hook x s) = events s" "rendezvous (fire_hook x s) = rendezvous s"
  by (simp_all add: fire_hook_def)

lemma trigger_explicit:
  assumes ex: "rtype (rendezvous s r) = rexplicit"
    and ro: "ready_ok s r xs" and wo: "waiting_ok s r ws" and xin: "x \<in> set ws"
  shows "ready_ok (simple_trigger x v s) r (xs @ [x])
    \<and> waiting_ok (simple_trigger x v s) r (remove1 x ws)
    \<and> rtype (rendezvous (simple_trigger x v s) r) = rexplicit
    \<and> (\<forall>y. e_rid (events (simple_trigger x v s) y) = e_rid (events s y))"
proof -
  from xin obtain as bs where ws: "ws = as @ x # bs" by (meson split_list)
  from wo have dl: "dll (events s) r (PWaiting r) (waiting (rendezvous s r)) (as @ x # bs)"
    and dist: "distinct (as @ x # bs)" by (simp_all add: waiting_ok_def ws)
  note mid = dll_mid [OF dl]
  have own: "e_r (events s y) = Some r" if "y \<in> set (as @ x # bs)" for y
    using dll_owner [OF dl that] .
  from ro have rc: "e_chain (events s) (ready (rendezvous s r)) xs" and rd: "distinct xs"
    and rp: "ready_ptail (rendezvous s r) = (if xs = [] then PReady r else PNext (last xs))"
    and re: "\<And>y. y \<in> set xs \<Longrightarrow> e_r (events s y) = None"
    by (simp_all add: ready_ok_def list_all_iff)
  have disj: "y \<notin> set (as @ x # bs)" if "y \<in> set xs" for y
    using re [OF that] own [of y] by auto
  have xnot: "x \<notin> set xs" using disj by auto
  have rem: "remove1 x ws = as @ bs"
    using dist by (simp add: ws remove1_append)
  define s1 where "s1 = unlink x s"
  have ev1: "events s1 = unlink_ev (events s) x" by (simp add: s1_def events_unlink)
  have pv: "e_r_pprev (events s x) = (if as = [] then PWaiting r else PNext (last as))"
    using mid by simp
  have rv1: "ready (rendezvous s1 r) = ready (rendezvous s r)"
    "ready_ptail (rendezvous s1 r) = ready_ptail (rendezvous s r)"
    "rtype (rendezvous s1 r) = rexplicit"
    "waiting (rendezvous s1 r) = (if as = [] then e_r_next (events s x) else waiting (rendezvous s r))"
    by (auto simp: s1_def unlink_def Let_def store_epptr_def pv ex split: option.splits)
  have w1: "dll (events s1) r (PWaiting r) (waiting (rendezvous s1 r)) (as @ bs)"
    using dll_unlink [OF dl dist] by (simp add: ev1 rv1)
  have oth: "events s1 y = events s y" if "y \<in> set xs" for y
  proof -
    from disj [OF that] have ny: "y \<noteq> x" "y \<notin> set as" "y \<notin> set bs" by auto
    have "e_r_pprev (events s x) \<noteq> PNext y"
      using pv ny(2) by (cases "as = []") auto
    moreover have "e_r_next (events s x) \<noteq> Some y"
      using mid ny(3) by (cases bs) auto
    ultimately show ?thesis unfolding ev1 using ny(1) by (simp add: unlink_ev_other)
  qed
  have c1: "e_chain (events s1) (ready (rendezvous s1 r)) xs"
    using rc e_chain_cong [of xs "events s1" "events s"] oth by (simp add: rv1)
  have e1: "e_r (events s1 y) = None" if "y \<in> set xs" for y
    using re [OF that] oth [OF that] by simp
  have x1: "e_r (events s1 x) = None" by (simp add: ev1 unlink_ev_def Let_def)
  define s2 where "s2 = push_ready r x s1"
  have ev2: "events s2 = (if xs = [] then (events s1)(x := (events s1 x)\<lparr>e_r_next := None\<rparr>)
       else (events s1)(last xs := (events s1 (last xs))\<lparr>e_r_next := Some x\<rparr>,
               x := (((events s1)(last xs := (events s1 (last xs))\<lparr>e_r_next := Some x\<rparr>)) x)
                      \<lparr>e_r_next := None\<rparr>))"
    by (simp add: s2_def push_ready_def Let_def store_epptr_def rv1 rp)
  have rv2: "ready (rendezvous s2 r) = (if xs = [] then Some x else ready (rendezvous s1 r))"
    "ready_ptail (rendezvous s2 r) = PNext x" "rtype (rendezvous s2 r) = rexplicit"
    "waiting (rendezvous s2 r) = waiting (rendezvous s1 r)"
    by (simp_all add: s2_def push_ready_def Let_def store_epptr_def rv1 rp)
  have c2: "e_chain (events s2) (ready (rendezvous s2 r)) (xs @ [x])"
  proof (cases "xs = []")
    case True
    then show ?thesis by (simp add: ev2 rv2)
  next
    case False
    from e_chain_snoc [OF c1 False rd xnot] False show ?thesis by (simp add: ev2 rv2)
  qed
  have e2: "e_r (events s2 y) = None" if "y \<in> set (xs @ [x])" for y
    using that e1 x1 by (cases "xs = []") (auto simp: ev2)
  have lastw: "last xs \<notin> set (as @ bs)" if "xs \<noteq> []"
    using disj [of "last xs"] that by auto
  have xw: "x \<notin> set (as @ bs)" using dist by auto
  have w2: "dll (events s2) r (PWaiting r) (waiting (rendezvous s2 r)) (as @ bs)"
  proof -
    have "dll (events s2) r (PWaiting r) (waiting (rendezvous s1 r)) (as @ bs)
          = dll (events s1) r (PWaiting r) (waiting (rendezvous s1 r)) (as @ bs)"
      by (rule dll_cong) (use lastw xw in \<open>auto simp: ev2\<close>)
    with w1 show ?thesis by (simp add: rv2)
  qed
  have rid2: "e_rid (events s2 y) = e_rid (events s y)" for y
    by (simp add: ev2 ev1 unlink_ev_rid)
  have st: "simple_trigger x v s = fire_hook x (unblock r s2)"
    using own [of x] by (simp add: simple_trigger_def Let_def s1_def [symmetric] rv1 s2_def)
  have fin: "events (simple_trigger x v s) = events s2"
    "ready (rendezvous (simple_trigger x v s) r) = ready (rendezvous s2 r)"
    "ready_ptail (rendezvous (simple_trigger x v s) r) = ready_ptail (rendezvous s2 r)"
    "waiting (rendezvous (simple_trigger x v s) r) = waiting (rendezvous s2 r)"
    "rtype (rendezvous (simple_trigger x v s) r) = rtype (rendezvous s2 r)"
    by (simp_all add: st fire_hook_keeps unblock_keeps)
  have dab: "distinct (as @ bs)" using dist by auto
  have dxs: "distinct (xs @ [x])" using rd xnot by simp
  show ?thesis
    using c2 e2 w2 rid2 dab dxs
    by (simp add: ready_ok_def waiting_ok_def fin rv2 rem list_all_iff)
qed

lemma unuse_clean_keeps:
  "e_r_next (events (unuse_clean p s) y) = e_r_next (events s y)"
  "e_r (events (unuse_clean p s) y) = e_r (events s y)"
  "e_r_pprev (events (unuse_clean p s) y) = e_r_pprev (events s y)"
  "e_rid (events (unuse_clean p s) y) = e_rid (events s y)"
  "rendezvous (unuse_clean p s) = rendezvous s"
  by (auto simp: unuse_clean_def Let_def split: option.splits)

lemma join_pops_head:
  assumes ro: "ready_ok s r (y # ys)" and wo: "waiting_ok s r ws"
  shows "\<exists>s'. join r s = Inr (Some (e_rid (events s y)), s') \<and> ready_ok s' r ys
     \<and> waiting_ok s' r ws \<and> rtype (rendezvous s' r) = rtype (rendezvous s r)
     \<and> (\<forall>z. e_rid (events s' z) = e_rid (events s z))"
proof -
  from ro have hd: "ready (rendezvous s r) = Some y"
    and tl: "e_chain (events s) (e_r_next (events s y)) ys"
    and d: "distinct (y # ys)"
    and rp: "ready_ptail (rendezvous s r) = PNext (last (y # ys))"
    and re: "\<And>z. z \<in> set (y # ys) \<Longrightarrow> e_r (events s z) = None"
    by (auto simp: ready_ok_def list_all_iff)
  define n where "n = e_r_next (events s y)"
  define s1 where "s1 = s\<lparr>rendezvous := (rendezvous s)(r := (rendezvous s r)\<lparr>ready := n\<rparr>)\<rparr>"
  define s2 where "s2 = (if n = None
                     then s1\<lparr>rendezvous := (rendezvous s1)
                               (r := (rendezvous s1 r)\<lparr>ready_ptail := PReady r\<rparr>)\<rparr>
                     else s1)"
  define s' where "s' = unuse_clean (Some y) s2"
  have j: "join r s = Inr (Some (e_rid (events s y)), s')"
    by (simp add: join_def pop_ready_def hd Let_def n_def [symmetric] s1_def [symmetric]
        s2_def [symmetric] s'_def) (simp add: s2_def s1_def)
  have ev2: "events s2 = events s" by (simp add: s2_def s1_def)
  have nn: "n = None \<longleftrightarrow> ys = []" using tl by (cases ys) (auto simp: n_def)
  have rv: "ready (rendezvous s' r) = n"
    "ready_ptail (rendezvous s' r) = (if ys = [] then PReady r else PNext (last ys))"
    "waiting (rendezvous s' r) = waiting (rendezvous s r)"
    "rtype (rendezvous s' r) = rtype (rendezvous s r)"
    using rp nn by (auto simp: s'_def unuse_clean_keeps s2_def s1_def)
  have c: "e_chain (events s') n ys"
    using tl e_chain_cong [of ys "events s'" "events s"]
    by (simp add: n_def s'_def unuse_clean_keeps ev2)
  have e: "e_r (events s' z) = None" if "z \<in> set ys" for z
    using re [of z] that by (simp add: s'_def unuse_clean_keeps ev2)
  from wo have dl: "dll (events s) r (PWaiting r) (waiting (rendezvous s r)) ws" and dw: "distinct ws"
    by (simp_all add: waiting_ok_def)
  have "dll (events s') r (PWaiting r) (waiting (rendezvous s r)) ws
        = dll (events s) r (PWaiting r) (waiting (rendezvous s r)) ws"
    by (rule dll_cong) (simp add: s'_def unuse_clean_keeps ev2)
  with dl have w: "dll (events s') r (PWaiting r) (waiting (rendezvous s' r)) ws"
    by (simp add: rv)
  have rid: "\<forall>z. e_rid (events s' z) = e_rid (events s z)"
    by (simp add: s'_def unuse_clean_keeps ev2)
  have "ready_ok s' r ys \<and> waiting_ok s' r ws"
    using c e d w dw by (simp add: ready_ok_def waiting_ok_def rv list_all_iff)
  with j rv(4) rid show ?thesis by blast
qed

lemma join_empty: "ready_ok s r [] \<Longrightarrow> join r s = Inr (None, s)"
  by (simp add: ready_ok_def join_def)

lemma joins_all:
  assumes "ready_ok s r xs" "waiting_ok s r ws"
  shows "\<exists>s'. joins (Suc (length xs)) r s = Inr (map (\<lambda>x. Some (e_rid (events s x))) xs @ [None], s')
     \<and> ready_ok s' r [] \<and> waiting_ok s' r ws"
  using assms
proof (induction xs arbitrary: s)
  case Nil
  then show ?case by (simp add: join_empty)
next
  case (Cons y ys)
  from join_pops_head [OF Cons.prems] obtain s1 where
    j: "join r s = Inr (Some (e_rid (events s y)), s1)" and r1: "ready_ok s1 r ys"
    and w1: "waiting_ok s1 r ws" and rid: "\<forall>z. e_rid (events s1 z) = e_rid (events s z)"
    by blast
  from Cons.IH [OF r1 w1] obtain s' where
    js: "joins (Suc (length ys)) r s1 = Inr (map (\<lambda>x. Some (e_rid (events s1 x))) ys @ [None], s')"
    and f: "ready_ok s' r []" "waiting_ok s' r ws" by blast
  have m: "map (\<lambda>x. Some (e_rid (events s1 x))) ys = map (\<lambda>x. Some (e_rid (events s x))) ys"
    using rid by simp
  have "joins (Suc (Suc (length ys))) r s
      = (case join r s of
           Inl err \<Rightarrow> Inl err
         | Inr (x, s1) \<Rightarrow>
             (case joins (Suc (length ys)) r s1 of
                Inl err \<Rightarrow> Inl err
              | Inr (xs, s2) \<Rightarrow> Inr (x # xs, s2)))"
    by (rule joins.simps(2))
  also have "\<dots> = Inr (Some (e_rid (events s y)) # map (\<lambda>x. Some (e_rid (events s x))) ys @ [None], s')"
    by (simp only: j js m sum.case prod.case append_Cons)
  finally have "joins (Suc (length (y # ys))) r s
      = Inr (map (\<lambda>x. Some (e_rid (events s x))) (y # ys) @ [None], s')"
    by simp
  with f show ?case by blast
qed

lemma initialize_arms:
  assumes ro: "ready_ok s r xs" and wo: "waiting_ok s r ws" and f: "e \<notin> set ws" "e \<notin> set xs"
  shows "waiting_ok (initialize e r rid s) r (e # ws) \<and> ready_ok (initialize e r rid s) r xs
     \<and> e_rid (events (initialize e r rid s) e) = rid
     \<and> rtype (rendezvous (initialize e r rid s) r) = rtype (rendezvous s r)"
proof -
  define s' where "s' = initialize e r rid s"
  from wo have dl: "dll (events s) r (PWaiting r) (waiting (rendezvous s r)) ws" and dw: "distinct ws"
    by (simp_all add: waiting_ok_def)
  from ro have rc: "e_chain (events s) (ready (rendezvous s r)) xs" and rd: "distinct xs"
    and rp: "ready_ptail (rendezvous s r) = (if xs = [] then PReady r else PNext (last xs))"
    and re: "\<And>y. y \<in> set xs \<Longrightarrow> e_r (events s y) = None"
    by (auto simp: ready_ok_def list_all_iff)
  have rv: "waiting (rendezvous s' r) = Some e" "ready (rendezvous s' r) = ready (rendezvous s r)"
    "ready_ptail (rendezvous s' r) = ready_ptail (rendezvous s r)"
    "rtype (rendezvous s' r) = rtype (rendezvous s r)"
    by (simp_all add: s'_def initialize_def Let_def)
  have hdw: "waiting (rendezvous s r) = (case ws of [] \<Rightarrow> None | h # _ \<Rightarrow> Some h)"
    using dl by (cases ws) auto
  have ee: "e_r (events s' e) = Some r" "e_r_pprev (events s' e) = PWaiting r"
    "e_r_next (events s' e) = waiting (rendezvous s r)" "e_rid (events s' e) = rid"
    using f(1) by (auto simp: s'_def initialize_def Let_def hdw split: list.splits)
  have oth: "events s' y = events s y" if "y \<noteq> e" "waiting (rendezvous s r) \<noteq> Some y" for y
    using that by (auto simp: s'_def initialize_def Let_def split: option.splits)
  have notw: "waiting (rendezvous s r) \<noteq> Some y" if "y \<in> set xs" for y
  proof
    assume "waiting (rendezvous s r) = Some y"
    with dl have "e_r (events s y) = Some r" by (cases ws) auto
    with re [OF that] show False by simp
  qed
  have same: "events s' y = events s y" if "y \<in> set xs" for y
    using oth [of y] notw [OF that] f(2) that by auto
  have "e_chain (events s') (ready (rendezvous s r)) xs
          = e_chain (events s) (ready (rendezvous s r)) xs"
    by (rule e_chain_cong) (simp add: same)
  with rc have c: "e_chain (events s') (ready (rendezvous s' r)) xs"
    by (simp add: rv)
  have e0: "e_r (events s' y) = None" if "y \<in> set xs" for y
    using re [OF that] same [OF that] by simp
  have w: "dll (events s') r (PNext e) (waiting (rendezvous s r)) ws"
  proof (cases ws)
    case Nil
    with dl show ?thesis by simp
  next
    case (Cons h ws')
    with dl have h: "waiting (rendezvous s r) = Some h" "e_r (events s h) = Some r"
      and tl: "dll (events s) r (PNext h) (e_r_next (events s h)) ws'" by auto
    from dw f(1) Cons have d: "h \<noteq> e" "h \<notin> set ws'" "e \<notin> set ws'" by auto
    have eh: "events s' h = (events s h)\<lparr>e_r_pprev := PNext e\<rparr>"
      using d(1) by (simp add: s'_def initialize_def Let_def h)
    have same': "events s' y = events s y" if "y \<in> set ws'" for y
    proof -
      from that d have "y \<noteq> e" "y \<noteq> h" by auto
      then show ?thesis using oth [of y] h(1) by simp
    qed
    have "dll (events s') r (PNext h) (e_r_next (events s h)) ws'
          = dll (events s) r (PNext h) (e_r_next (events s h)) ws'"
      by (rule dll_cong) (simp add: same')
    with tl eh h Cons show ?thesis by simp
  qed
  have "waiting_ok s' r (e # ws)"
    using w ee dw f(1) by (simp add: waiting_ok_def rv)
  moreover have "ready_ok s' r xs"
    using c e0 rd rp by (simp add: ready_ok_def rv list_all_iff)
  ultimately show ?thesis using ee(4) rv(4) by (simp add: s'_def)
qed

text \<open>
  Claim C3. On an explicit rendezvous whose ready list is \<open>xs\<close> and whose waiting list
  holds the distinct events \<open>e1\<close> and \<open>e2\<close>, a trigger of \<open>e1\<close> appends \<open>e1\<close> to the
  ready list and a following trigger of \<open>e2\<close> appends \<open>e2\<close> behind it; the joins that
  follow return the identifiers of \<open>xs\<close>, then that of \<open>e1\<close>, then that of \<open>e2\<close>, and
  then report that no event is ready. A join pops the head of the ready list and leaves
  the rest in order, so the list is never reordered.
\<close>

theorem join_returns_trigger_order:
  assumes "rtype (rendezvous s r) = rexplicit" "ready_ok s r xs" "waiting_ok s r ws"
    "e1 \<in> set ws" "e2 \<in> set ws" "e1 \<noteq> e2"
  shows "ready_ok (simple_trigger e1 v1 s) r (xs @ [e1])
    \<and> ready_ok (simple_trigger e2 v2 (simple_trigger e1 v1 s)) r (xs @ [e1, e2])
    \<and> (\<exists>s'. joins (length xs + 3) r (simple_trigger e2 v2 (simple_trigger e1 v1 s))
             = Inr (map (\<lambda>x. Some (e_rid (events s x))) (xs @ [e1, e2]) @ [None], s'))
    \<and> (\<forall>y ys. xs = y # ys \<longrightarrow>
          (\<exists>s'. join r s = Inr (Some (e_rid (events s y)), s') \<and> ready_ok s' r ys))
    \<and> (xs = [] \<longrightarrow> join r s = Inr (None, s))"
proof -
  define s1 where "s1 = simple_trigger e1 v1 s"
  define s2 where "s2 = simple_trigger e2 v2 s1"
  from trigger_explicit [OF assms(1,2,3,4), of v1] have
    1: "ready_ok s1 r (xs @ [e1])" "waiting_ok s1 r (remove1 e1 ws)"
       "rtype (rendezvous s1 r) = rexplicit" "\<forall>y. e_rid (events s1 y) = e_rid (events s y)"
    by (simp_all add: s1_def)
  have in2: "e2 \<in> set (remove1 e1 ws)" using assms(5,6) by simp
  from trigger_explicit [OF 1(3) 1(1) 1(2) in2, of v2] have
    2: "ready_ok s2 r (xs @ [e1, e2])" "waiting_ok s2 r (remove1 e2 (remove1 e1 ws))"
       "\<forall>y. e_rid (events s2 y) = e_rid (events s1 y)"
    by (simp_all add: s2_def)
  from joins_all [OF 2(1) 2(2)] obtain s' where
    "joins (Suc (length (xs @ [e1, e2]))) r s2
       = Inr (map (\<lambda>x. Some (e_rid (events s2 x))) (xs @ [e1, e2]) @ [None], s')"
    by blast
  moreover have "map (\<lambda>x. Some (e_rid (events s2 x))) (xs @ [e1, e2])
      = map (\<lambda>x. Some (e_rid (events s x))) (xs @ [e1, e2])"
    using 1(4) 2(3) by simp
  moreover have "Suc (length (xs @ [e1, e2])) = length xs + 3" by simp
  ultimately have 3: "\<exists>s'. joins (length xs + 3) r s2
             = Inr (map (\<lambda>x. Some (e_rid (events s x))) (xs @ [e1, e2]) @ [None], s')"
    by (metis (no_types, lifting))
  have 4: "\<forall>y ys. xs = y # ys \<longrightarrow>
          (\<exists>s'. join r s = Inr (Some (e_rid (events s y)), s') \<and> ready_ok s' r ys)"
    using join_pops_head [OF _ assms(3)] assms(2) by blast
  have 5: "xs = [] \<longrightarrow> join r s = Inr (None, s)"
    using assms(2) by (auto simp: join_empty)
  from 1(1) 2(1) 3 4 5 show ?thesis unfolding s2_def s1_def by blast
qed

lemma ex_armed_state_ok:
  "rtype (rendezvous ex_armed_state 3) = rexplicit" "ready_ok ex_armed_state 3 []"
  "waiting_ok ex_armed_state 3 [22, 21]"
  "e_rid (events ex_armed_state 21) = 101" "e_rid (events ex_armed_state 22) = 102"
  by (simp_all add: ex_armed_state_def initialize_def Let_def ex_state_def ex_rendezvous_def
      explicit_rendezvous_new_def abstract_rendezvous_new_def ready_ok_def waiting_ok_def
      ex_event_def)

theorem join_returns_trigger_order_witness:
  "rtype (rendezvous ex_armed_state 3) = rexplicit \<and> ready_ok ex_armed_state 3 []
   \<and> waiting_ok ex_armed_state 3 [22, 21] \<and> 21 \<in> set [22, 21::nat] \<and> 22 \<in> set [22, 21::nat]
   \<and> map_sum id fst (joins 3 3 (simple_trigger 22 True (simple_trigger 21 True ex_armed_state)))
       = Inr [Some 101, Some 102, None]
   \<and> map_sum id fst (joins 3 3 (simple_trigger 21 True (simple_trigger 22 True ex_armed_state)))
       = Inr [Some 102, Some 101, None]"
proof -
  have a: "(21::nat) \<in> set [22, 21]" "(22::nat) \<in> set [22, 21]" "(21::nat) \<noteq> 22" "(22::nat) \<noteq> 21"
    by simp_all
  from join_returns_trigger_order [OF ex_armed_state_ok(1,2,3) a(1) a(2) a(3), of True True]
  obtain s' where "joins 3 3 (simple_trigger 22 True (simple_trigger 21 True ex_armed_state))
       = Inr ([Some 101, Some 102, None], s')"
    by (auto simp: ex_armed_state_ok)
  then have 1: "map_sum id fst (joins 3 3 (simple_trigger 22 True (simple_trigger 21 True ex_armed_state)))
       = Inr [Some 101, Some 102, None]" by simp
  from join_returns_trigger_order [OF ex_armed_state_ok(1,2,3) a(2) a(1) a(4), of True True]
  obtain s'' where "joins 3 3 (simple_trigger 21 True (simple_trigger 22 True ex_armed_state))
       = Inr ([Some 102, Some 101, None], s'')"
    by (auto simp: ex_armed_state_ok)
  then have 2: "map_sum id fst (joins 3 3 (simple_trigger 21 True (simple_trigger 22 True ex_armed_state)))
       = Inr [Some 102, Some 101, None]" by simp
  from 1 2 ex_armed_state_ok a show ?thesis by simp
qed

section \<open>Properties of typed events\<close>

lemma complete_empty: "b_r (ev w e) = None \<Longrightarrow> complete e v w = (False, w)"
  by (simp add: complete_def)

lemma complete_armed_typed:
  fixes w :: "'v typed_world"
  assumes "b_r (ev w e) \<noteq> None"
  shows "\<exists>w1. complete e v w = (True, w1) \<and> b_r (ev w1 e) = None
     \<and> hooks_fired w1 = hooks_fired w @ (case b_at_trigger (ev w e) of None \<Rightarrow> [] | Some h \<Rightarrow> [h])
     \<and> b_t1 w1 = b_t1 w \<and> b_t2 w1 = b_t2 w \<and> b_t3 w1 = b_t3 w \<and> b_t4 w1 = b_t4 w \<and> mem w1 = mem w"
  using assms by (auto simp add: complete_def split: option.splits)

lemma write_slot_simps:
  "ev (write_slot sl t w) = ev w" "hooks_fired (write_slot sl t w) = hooks_fired w"
  "mem (write_slot sl t w) p = (if sl = Some p then t else mem w p)"
  by (simp_all add: write_slot_def split: option.splits)

lemma trigger_empty_noop:
  "b_r (ev w e) = None \<Longrightarrow> trigger4 e a b c d w = w \<and> trigger3 e a b c w = w \<and> trigger2 e a b w = w
     \<and> trigger1 e a w = w \<and> trigger0 e w = w"
  by (simp add: trigger4_def trigger3_def trigger2_def trigger1_def trigger0_def complete_empty)

lemma trigger4_first:
  assumes "b_r (ev w e) \<noteq> None"
  shows "b_r (ev (trigger4 e a b c d w) e) = None
    \<and> hooks_fired (trigger4 e a b c d w)
        = hooks_fired w @ (case b_at_trigger (ev w e) of None \<Rightarrow> [] | Some h \<Rightarrow> [h])
    \<and> (\<forall>p. b_t4 w e = Some p \<longrightarrow> mem (trigger4 e a b c d w) p = d)
    \<and> (\<forall>p. b_t3 w e = Some p \<and> b_t4 w e \<noteq> Some p \<longrightarrow> mem (trigger4 e a b c d w) p = c)
    \<and> (\<forall>p. b_t2 w e = Some p \<and> b_t3 w e \<noteq> Some p \<and> b_t4 w e \<noteq> Some p
          \<longrightarrow> mem (trigger4 e a b c d w) p = b)
    \<and> (\<forall>p. b_t1 w e = Some p \<and> b_t2 w e \<noteq> Some p \<and> b_t3 w e \<noteq> Some p \<and> b_t4 w e \<noteq> Some p
          \<longrightarrow> mem (trigger4 e a b c d w) p = a)
    \<and> (\<forall>p. b_t1 w e \<noteq> Some p \<and> b_t2 w e \<noteq> Some p \<and> b_t3 w e \<noteq> Some p \<and> b_t4 w e \<noteq> Some p
          \<longrightarrow> mem (trigger4 e a b c d w) p = mem w p)
    \<and> trigger4 e a' b' c' d' (trigger4 e a b c d w) = trigger4 e a b c d w"
proof -
  from complete_armed_typed[OF assms, of True] obtain w1 where
    c: "complete e True w = (True, w1)" and w1: "b_r (ev w1 e) = None"
    "hooks_fired w1 = hooks_fired w @ (case b_at_trigger (ev w e) of None \<Rightarrow> [] | Some h \<Rightarrow> [h])"
    "b_t1 w1 = b_t1 w" "b_t2 w1 = b_t2 w" "b_t3 w1 = b_t3 w" "b_t4 w1 = b_t4 w" "mem w1 = mem w"
    by blast
  have t: "trigger4 e a b c d w = write_slot (b_t4 w e) d (write_slot (b_t3 w e) c
            (write_slot (b_t2 w e) b (write_slot (b_t1 w e) a w1)))"
    by (simp add: trigger4_def c w1)
  have em: "b_r (ev (trigger4 e a b c d w) e) = None"
    by (simp add: t write_slot_simps w1)
  have noop: "trigger4 e a' b' c' d' (trigger4 e a b c d w) = trigger4 e a b c d w"
    using trigger_empty_noop[OF em] by simp
  show ?thesis
    using em noop by (simp add: t write_slot_simps w1)
qed

lemma trigger3_first:
  assumes "b_r (ev w e) \<noteq> None"
  shows "b_r (ev (trigger3 e a b c w) e) = None
    \<and> hooks_fired (trigger3 e a b c w)
        = hooks_fired w @ (case b_at_trigger (ev w e) of None \<Rightarrow> [] | Some h \<Rightarrow> [h])
    \<and> (\<forall>p. b_t3 w e = Some p \<longrightarrow> mem (trigger3 e a b c w) p = c)
    \<and> (\<forall>p. b_t2 w e = Some p \<and> b_t3 w e \<noteq> Some p \<longrightarrow> mem (trigger3 e a b c w) p = b)
    \<and> (\<forall>p. b_t1 w e = Some p \<and> b_t2 w e \<noteq> Some p \<and> b_t3 w e \<noteq> Some p
          \<longrightarrow> mem (trigger3 e a b c w) p = a)
    \<and> (\<forall>p. b_t1 w e \<noteq> Some p \<and> b_t2 w e \<noteq> Some p \<and> b_t3 w e \<noteq> Some p
          \<longrightarrow> mem (trigger3 e a b c w) p = mem w p)
    \<and> trigger3 e a' b' c' (trigger3 e a b c w) = trigger3 e a b c w"
proof -
  from complete_armed_typed[OF assms, of True] obtain w1 where
    c: "complete e True w = (True, w1)" and w1: "b_r (ev w1 e) = None"
    "hooks_fired w1 = hooks_fired w @ (case b_at_trigger (ev w e) of None \<Rightarrow> [] | Some h \<Rightarrow> [h])"
    "b_t1 w1 = b_t1 w" "b_t2 w1 = b_t2 w" "b_t3 w1 = b_t3 w" "b_t4 w1 = b_t4 w" "mem w1 = mem w"
    by blast
  have t: "trigger3 e a b c w = write_slot (b_t3 w e) c (write_slot (b_t2 w e) b (write_slot (b_t1 w e) a w1))"
    by (simp add: trigger3_def c w1)
  have em: "b_r (ev (trigger3 e a b c w) e) = None"
    by (simp add: t write_slot_simps w1)
  have noop: "trigger3 e a' b' c' (trigger3 e a b c w) = trigger3 e a b c w"
    using trigger_empty_noop[OF em] by simp
  show ?thesis
    using em noop by (simp add: t write_slot_simps w1)
qed

lemma trigger2_first:
  assumes "b_r (ev w e) \<noteq> None"
  shows "b_r (ev (trigger2 e a b w) e) = None
    \<and> hooks_fired (trigger2 e a b w)
        = hooks_fired w @ (case b_at_trigger (ev w e) of None \<Rightarrow> [] | Some h \<Rightarrow> [h])
    \<and> (\<forall>p. b_t2 w e = Some p \<longrightarrow> mem (trigger2 e a b w) p = b)
    \<and> (\<forall>p. b_t1 w e = Some p \<and> b_t2 w e \<noteq> Some p \<longrightarrow> mem (trigger2 e a b w) p = a)
    \<and> (\<forall>p. b_t1 w e \<noteq> Some p \<and> b_t2 w e \<noteq> Some p \<longrightarrow> mem (trigger2 e a b w) p = mem w p)
    \<and> trigger2 e a' b' (trigger2 e a b w) = trigger2 e a b w"
proof -
  from complete_armed_typed[OF assms, of True] obtain w1 where
    c: "complete e True w = (True, w1)" and w1: "b_r (ev w1 e) = None"
    "hooks_fired w1 = hooks_fired w @ (case b_at_trigger (ev w e) of None \<Rightarrow> [] | Some h \<Rightarrow> [h])"
    "b_t1 w1 = b_t1 w" "b_t2 w1 = b_t2 w" "b_t3 w1 = b_t3 w" "b_t4 w1 = b_t4 w" "mem w1 = mem w"
    by blast
  have t: "trigger2 e a b w = write_slot (b_t2 w e) b (write_slot (b_t1 w e) a w1)"
    by (simp add: trigger2_def c w1)
  have em: "b_r (ev (trigger2 e a b w) e) = None"
    by (simp add: t write_slot_simps w1)
  have noop: "trigger2 e a' b' (trigger2 e a b w) = trigger2 e a b w"
    using trigger_empty_noop[OF em] by simp
  show ?thesis
    using em noop by (simp add: t write_slot_simps w1)
qed

lemma trigger1_first:
  assumes "b_r (ev w e) \<noteq> None"
  shows "b_r (ev (trigger1 e a w) e) = None
    \<and> hooks_fired (trigger1 e a w)
        = hooks_fired w @ (case b_at_trigger (ev w e) of None \<Rightarrow> [] | Some h \<Rightarrow> [h])
    \<and> (\<forall>p. b_t1 w e = Some p \<longrightarrow> mem (trigger1 e a w) p = a)
    \<and> (\<forall>p. b_t1 w e \<noteq> Some p \<longrightarrow> mem (trigger1 e a w) p = mem w p)
    \<and> trigger1 e a' (trigger1 e a w) = trigger1 e a w"
proof -
  from complete_armed_typed[OF assms, of True] obtain w1 where
    c: "complete e True w = (True, w1)" and w1: "b_r (ev w1 e) = None"
    "hooks_fired w1 = hooks_fired w @ (case b_at_trigger (ev w e) of None \<Rightarrow> [] | Some h \<Rightarrow> [h])"
    "b_t1 w1 = b_t1 w" "b_t2 w1 = b_t2 w" "b_t3 w1 = b_t3 w" "b_t4 w1 = b_t4 w" "mem w1 = mem w"
    by blast
  have t: "trigger1 e a w = write_slot (b_t1 w e) a w1"
    by (simp add: trigger1_def c w1)
  have em: "b_r (ev (trigger1 e a w) e) = None"
    by (simp add: t write_slot_simps w1)
  have noop: "trigger1 e a' (trigger1 e a w) = trigger1 e a w"
    using trigger_empty_noop[OF em] by simp
  show ?thesis
    using em noop by (simp add: t write_slot_simps w1)
qed

text \<open>
  Claim C1. For a typed event of any arity that is armed, the first \<^verbatim>\<open>trigger(v)\<close>
  empties the event, fires its hook once and writes the values into the non-null slots in
  slot order: afterwards the storage of each non-null slot holds the value given for it
  (where two slots share storage, the value of the later slot), and no other storage
  changes. A second \<^verbatim>\<open>trigger(v')\<close> returns the state unchanged: the slots still hold
  \<open>v\<close>, the event stays empty and no hook is fired again. A trigger of an event that is
  empty is always the identity, so the same holds for every later trigger.
\<close>

theorem trigger_once_then_noop:
  "(b_r (ev w e) \<noteq> None \<longrightarrow>
      (b_r (ev (trigger4 e a b c d w) e) = None
        \<and> hooks_fired (trigger4 e a b c d w)
            = hooks_fired w @ (case b_at_trigger (ev w e) of None \<Rightarrow> [] | Some h \<Rightarrow> [h])
        \<and> (\<forall>p. b_t4 w e = Some p \<longrightarrow> mem (trigger4 e a b c d w) p = d)
        \<and> (\<forall>p. b_t3 w e = Some p \<and> b_t4 w e \<noteq> Some p \<longrightarrow> mem (trigger4 e a b c d w) p = c)
        \<and> (\<forall>p. b_t2 w e = Some p \<and> b_t3 w e \<noteq> Some p \<and> b_t4 w e \<noteq> Some p
              \<longrightarrow> mem (trigger4 e a b c d w) p = b)
        \<and> (\<forall>p. b_t1 w e = Some p \<and> b_t2 w e \<noteq> Some p \<and> b_t3 w e \<noteq> Some p \<and> b_t4 w e \<noteq> Some p
              \<longrightarrow> mem (trigger4 e a b c d w) p = a)
        \<and> (\<forall>p. b_t1 w e \<noteq> Some p \<and> b_t2 w e \<noteq> Some p \<and> b_t3 w e \<noteq> Some p \<and> b_t4 w e \<noteq> Some p
              \<longrightarrow> mem (trigger4 e a b c d w) p = mem w p)
        \<and> trigger4 e a' b' c' d' (trigger4 e a b c d w) = trigger4 e a b c d w)
      \<and> (b_r (ev (trigger3 e a b c w) e) = None
        \<and> hooks_fired (trigger3 e a b c w)
            = hooks_fired w @ (case b_at_trigger (ev w e) of None \<Rightarrow> [] | Some h \<Rightarrow> [h])
        \<and> (\<forall>p. b_t3 w e = Some p \<longrightarrow> mem (trigger3 e a b c w) p = c)
        \<and> (\<forall>p. b_t2 w e = Some p \<and> b_t3 w e \<noteq> Some p \<longrightarrow> mem (trigger3 e a b c w) p = b)
        \<and> (\<forall>p. b_t1 w e = Some p \<and> b_t2 w e \<noteq> Some p \<and> b_t3 w e \<noteq> Some p
              \<longrightarrow> mem (trigger3 e a b c w) p = a)
        \<and> (\<forall>p. b_t1 w e \<noteq> Some p \<and> b_t2 w e \<noteq> Some p \<and> b_t3 w e \<noteq> Some p
              \<longrightarrow> mem (trigger3 e a b c w) p = mem w p)
        \<and> trigger3 e a' b' c' (trigger3 e a b c w) = trigger3 e a b c w)
      \<and> (b_r (ev (trigger2 e a b w) e) = None
        \<and> hooks_fired (trigger2 e a b w)
            = hooks_fired w @ (case b_at_trigger (ev w e) of None \<Rightarrow> [] | Some h \<Rightarrow> [h])
        \<and> (\<forall>p. b_t2 w e = Some p \<longrightarrow> mem (trigger2 e a b w) p = b)
        \<and> (\<forall>p. b_t1 w e = Some p \<and> b_t2 w e \<noteq> Some p \<longrightarrow> mem (trigger2 e a b w) p = a)
        \<and> (\<forall>p. b_t1 w e \<noteq> Some p \<and> b_t2 w e \<noteq> Some p \<longrightarrow> mem (trigger2 e a b w) p = mem w p)
        \<and> trigger2 e a' b' (trigger2 e a b w) = trigger2 e a b w)
      \<and> (b_r (ev (trigger1 e a w) e) = None
        \<and> hooks_fired (trigger1 e a w)
            = hooks_fired w @ (case b_at_trigger (ev w e) of None \<Rightarrow> [] | Some h \<Rightarrow> [h])
        \<and> (\<forall>p. b_t1 w e = Some p \<longrightarrow> mem (trigger1 e a w) p = a)
        \<and> (\<forall>p. b_t1 w e \<noteq> Some p \<longrightarrow> mem (trigger1 e a w) p = mem w p)
        \<and> trigger1 e a' (trigger1 e a w) = trigger1 e a w))
   \<and> (b_r (ev w e) = None \<longrightarrow>
        trigger4 e a b c d w = w \<and> trigger3 e a b c w = w \<and> trigger2 e a b w = w
        \<and> trigger1 e a w = w)"
  (is "(_ \<longrightarrow> ?G4 \<and> ?G3 \<and> ?G2 \<and> ?G1) \<and> (_ \<longrightarrow> ?N)")
proof (rule conjI; rule impI)
  assume ar: "b_r (ev w e) \<noteq> None"
  have g4: ?G4 by (rule trigger4_first [OF ar])
  have g3: ?G3 by (rule trigger3_first [OF ar])
  have g2: ?G2 by (rule trigger2_first [OF ar])
  have g1: ?G1 by (rule trigger1_first [OF ar])
  show "?G4 \<and> ?G3 \<and> ?G2 \<and> ?G1"
    by (rule conjI [OF g4 conjI [OF g3 conjI [OF g2 g1]]])
next
  assume e: "b_r (ev w e) = None"
  show ?N using trigger_empty_noop [OF e] by simp
qed

theorem trigger_once_then_noop_witness:
  "b_r (ev ex_typed_world 1) \<noteq> None
   \<and> mem (trigger4 1 1 2 3 4 ex_typed_world) 100 = 1
   \<and> mem (trigger4 1 1 2 3 4 ex_typed_world) 102 = 3
   \<and> mem (trigger4 1 1 2 3 4 ex_typed_world) 103 = 4
   \<and> mem (trigger4 1 1 2 3 4 ex_typed_world) 101 = 0
   \<and> hooks_fired (trigger4 1 1 2 3 4 ex_typed_world) = [9]
   \<and> b_r (ev (trigger4 1 1 2 3 4 ex_typed_world) 1) = None
   \<and> trigger4 1 5 6 7 8 (trigger4 1 1 2 3 4 ex_typed_world) = trigger4 1 1 2 3 4 ex_typed_world
   \<and> mem (trigger4 1 5 6 7 8 (trigger4 1 1 2 3 4 ex_typed_world)) 100 = 1
   \<and> hooks_fired (trigger4 1 5 6 7 8 (trigger4 1 1 2 3 4 ex_typed_world)) = [9]
   \<and> trigger1 1 5 (trigger1 1 1 ex_typed_world) = trigger1 1 1 ex_typed_world
   \<and> mem (trigger1 1 5 (trigger1 1 1 ex_typed_world)) 100 = 1"
  using trigger_once_then_noop [of ex_typed_world 1 1 2 3 4 5 6 7 8]
    trigger_once_then_noop [of "trigger4 1 1 2 3 4 ex_typed_world" 1 5 6 7 8 5 6 7 8]
  by (simp add: ex_typed_world_def ex_empty_event_def trigger4_def trigger1_def complete_def
      write_slot_def)

section \<open>Properties of the driver\<close>

lemma heap_step_refl [simp]: "heap_step d d"
  unfolding heap_step_def by (rule exI [of _ "d_t d"], rule exI [of _ "timers d"], rule exI [of _ "d_tfree d"]) simp

lemma heap_step_trans: "heap_step a b \<Longrightarrow> heap_step b c \<Longrightarrow> heap_step a c"
  unfolding heap_step_def by (elim exE) (simp, blast)

lemma heap_step_sift_up_step: "heap_step d (sift_up_step pos d)"
  unfolding heap_step_def sift_up_step_def Let_def
  by (rule exI [of _ "(d_t d)[pos := d_t d ! ((pos - 1) div 2)]"],
      rule exI [of _ "(timers d)((d_t d)[pos := d_t d ! ((pos - 1) div 2)] ! ((pos - 1) div 2)
          := (timers d ((d_t d)[pos := d_t d ! ((pos - 1) div 2)] ! ((pos - 1) div 2)))
               \<lparr>u := Schedpos pos\<rparr>)"],
      rule exI [of _ "d_tfree d"]) simp

lemma heap_step_place: "heap_step d (place pos s d)"
  unfolding heap_step_def place_def Let_def
  by (rule exI [of _ "(d_t d)[pos := s]"],
      rule exI [of _ "(timers d)(s := (timers d s)\<lparr>u := Schedpos pos\<rparr>)"],
      rule exI [of _ "d_tfree d"]) simp

lemma heap_step_sift_up: "sift_up pos t d = (pos1, d1) \<Longrightarrow> heap_step d d1"
proof (induction pos t d arbitrary: pos1 d1 rule: sift_up.induct)
  case (1 pos t d)
  show ?case
  proof (cases "0 < pos \<and> timercmp_gt (expiry (timers d (d_t d ! ((pos - 1) div 2))))
                                 (expiry (timers d t))")
    case True
    with "1.prems" have "sift_up ((pos - 1) div 2) t (sift_up_step pos d) = (pos1, d1)"
      by (subst (asm) sift_up.simps) simp
    from "1.IH" [OF True this] heap_step_sift_up_step show ?thesis
      by (blast intro: heap_step_trans)
  next
    case False
    with "1.prems" show ?thesis by (subst (asm) sift_up.simps) auto
  qed
qed

lemma heap_step_sift_down: "heap_step d (sift_down pos t d)"
proof (induction pos t d rule: sift_down.induct)
  case (1 pos t d)
  obtain s tp where sc: "smallest_child pos t d = (s, tp)" by (cases "smallest_child pos t d")
  show ?case
  proof (cases "s = t")
    case True
    with sc show ?thesis by (subst sift_down.simps) (simp add: heap_step_place)
  next
    case False
    from "1.IH" [OF sc [symmetric] False] have "heap_step (place pos s d) (sift_down tp t (place pos s d))" .
    with heap_step_place have "heap_step d (sift_down tp t (place pos s d))"
      by (blast intro: heap_step_trans)
    with sc False show ?thesis by (subst sift_down.simps) simp
  qed
qed

lemma heap_step_reheapify: "heap_step d (timer_reheapify_from pos t wd d)"
proof -
  obtain p1 d1 where su: "sift_up pos t d = (p1, d1)" by (cases "sift_up pos t d")
  have "timer_reheapify_from pos t wd d = sift_down p1 t d1"
    by (simp add: timer_reheapify_from_def su)
  with heap_step_sift_up [OF su] heap_step_sift_down [of d1 p1 t] show ?thesis
    by (auto intro: heap_step_trans)
qed

lemma heap_step_pop_timer: "heap_step d (pop_timer d)"
proof -
  have b: "heap_step x (x\<lparr>d_t := butlast (d_t x)\<rparr>)" for x :: driver
    unfolding heap_step_def
    by (rule exI [of _ "butlast (d_t x)"], rule exI [of _ "timers x"],
        rule exI [of _ "d_tfree x"]) simp
  show ?thesis unfolding pop_timer_def Let_def
    using heap_step_reheapify b by (blast intro: heap_step_trans)
qed

lemma heap_step_free_timer: "heap_step d (free_timer t d)"
  unfolding heap_step_def free_timer_def
  by (rule exI [of _ "d_t d"],
      rule exI [of _ "(timers d)(t := (timers d t)\<lparr>u := Next (d_tfree d)\<rparr>)"],
      rule exI [of _ "Some t"]) simp

lemma heap_step_drop_cancelled: "heap_step d (drop_cancelled_timers d)"
proof (induction d rule: drop_cancelled_timers.induct)
  case (1 d)
  show ?case
  proof (cases "0 < length (d_t d) \<and> \<not> event_bool (t_trigger (timers d (d_t d ! 0))) d")
    case True
    from "1.IH" [OF True] heap_step_pop_timer [of d] heap_step_free_timer
    have "heap_step d (drop_cancelled_timers (free_timer (d_t d ! 0) (pop_timer d)))"
      by (blast intro: heap_step_trans)
    with True show ?thesis by (subst drop_cancelled_timers.simps) simp
  next
    case False
    then show ?thesis by (subst drop_cancelled_timers.simps) auto
  qed
qed

lemma heap_step_fields:
  assumes "heap_step d d'"
  shows "trace d' = trace d" "d_asap d' = d_asap d" "sig_any_active d' = sig_any_active d"
    "d_now d' = d_now d" "d_readfds d' = d_readfds d" "d_writefds d' = d_writefds d"
    "ev d' = ev d" "unblockedq d' = unblockedq d" "d_nfds d' = d_nfds d" "d_fd d' = d_fd d"
    "sig_pipe0 d' = sig_pipe0 d" "sig_active d' = sig_active d" "sig_handlers d' = sig_handlers d"
    "parked d' = parked d" "completions d' = completions d" "hooks_fired d' = hooks_fired d"
  using assms unfolding heap_step_def by auto

lemma mono_refl [simp]: "mono d d"
  by (simp add: mono_def)

lemma mono_trans: "mono a b \<Longrightarrow> mono b c \<Longrightarrow> mono a c"
  by (simp add: mono_def)

lemma mono_ev: "ev d' = ev d \<Longrightarrow> mono d d'"
  by (simp add: mono_def)

lemma trigger0_driver:
  "trace (trigger0 e d) = trace d" "d_asap (trigger0 e d) = d_asap d"
  "d_readfds (trigger0 e d) = d_readfds d" "d_writefds (trigger0 e d) = d_writefds d"
  "d_t (trigger0 e d) = d_t d" "timers (trigger0 e d) = timers d"
  "d_tfree (trigger0 e d) = d_tfree d" "d_nfds (trigger0 e d) = d_nfds d"
  "d_fd (trigger0 e d) = d_fd d" "d_now (trigger0 e d) = d_now d"
  "sig_active (trigger0 e d) = sig_active d" "sig_handlers (trigger0 e d) = sig_handlers d"
  "sig_any_active (trigger0 e d) = sig_any_active d" "sig_pipe0 (trigger0 e d) = sig_pipe0 d"
  "b_r (ev (trigger0 e d) x) = (if x = e then None else b_r (ev d x))"
  by (simp_all add: trigger0_def complete_def split: option.splits)

lemma mono_trigger0: "mono d (trigger0 e d)"
  by (simp add: mono_def trigger0_driver)

lemma log_more_fields:
  "d_readfds (log a d) = d_readfds d" "d_writefds (log a d) = d_writefds d"
  "ev (log a d) = ev d" "sig_any_active (log a d) = sig_any_active d"
  "sig_active (log a d) = sig_active d" "sig_handlers (log a d) = sig_handlers d"
  "d_tfree (log a d) = d_tfree d" "sig_pipe0 (log a d) = sig_pipe0 d"
  by (simp_all add: log_def)

lemma run_unblocked_effect:
  "trace (run_unblocked d) = trace d @ map Run (unblockedq d)
   \<and> unblockedq (run_unblocked d) = [] \<and> ev (run_unblocked d) = ev d
   \<and> d_asap (run_unblocked d) = d_asap d \<and> d_readfds (run_unblocked d) = d_readfds d
   \<and> d_writefds (run_unblocked d) = d_writefds d \<and> d_t (run_unblocked d) = d_t d
   \<and> timers (run_unblocked d) = timers d \<and> d_now (run_unblocked d) = d_now d
   \<and> d_nfds (run_unblocked d) = d_nfds d \<and> d_fd (run_unblocked d) = d_fd d"
proof (induction d rule: run_unblocked.induct)
  case (1 d)
  show ?case
  proof (cases "unblockedq d")
    case Nil
    have eq: "run_unblocked d = d"
      by (subst run_unblocked.simps) (simp add: Nil)
    show ?thesis unfolding eq by (simp add: Nil)
  next
    case (Cons r rest)
    have eq: "run_unblocked d = run_unblocked (rendezvous_run r d)"
      by (subst run_unblocked.simps) (simp add: Cons)
    from "1.IH" [OF Cons] show ?thesis
      unfolding eq by (simp add: rendezvous_run_def log_def Cons)
  qed
qed

lemma unblockedq_trigger0: "\<exists>Q. unblockedq (trigger0 e d) = unblockedq d @ Q"
  by (cases "b_r (ev d e)") (auto simp: trigger0_def complete_def)

lemma check_signal_effect:
  assumes "check_signal sig (d, sg) = (d', sg')"
  shows "\<exists>S Q. trace d' = trace d @ S \<and> list_all is_signal S
     \<and> unblockedq d' = unblockedq d @ Q
     \<and> d_asap d' = d_asap d \<and> d_readfds d' = d_readfds d \<and> d_writefds d' = d_writefds d
     \<and> mono d d' \<and> sig_any_active d' = sig_any_active d \<and> d_t d' = d_t d
     \<and> timers d' = timers d \<and> d_now d' = d_now d \<and> d_nfds d' = d_nfds d \<and> d_fd d' = d_fd d"
proof (cases "sig_active d ! sig")
  case True
  define d0 where "d0 = d\<lparr>sig_active := (sig_active d)[sig := False]\<rparr>"
  from True assms have d': "d' = log (TriggerSignal sig (sig_handlers d ! sig))
                (trigger0 (sig_handlers d ! sig) d0)"
    by (simp add: check_signal_def d0_def)
  have m: "mono d d'"
    unfolding d' by (simp add: mono_def log_more_fields trigger0_driver d0_def)
  from unblockedq_trigger0 [of "sig_handlers d ! sig" d0]
  obtain Q where q: "unblockedq d' = unblockedq d @ Q"
    unfolding d' by (auto simp: d0_def)
  show ?thesis
    by (rule exI [of _ "[TriggerSignal sig (sig_handlers d ! sig)]"], rule exI [of _ Q])
       (simp add: m q, simp add: d' log_more_fields trigger0_driver d0_def)
next
  case False
  with assms have "d' = d" by (simp add: check_signal_def)
  then show ?thesis by (intro exI [of _ "[]"]) simp
qed

lemma fold_check_signal_effect:
  "fold check_signal xs (d, sg) = (d', sg') \<Longrightarrow>
   \<exists>S Q. trace d' = trace d @ S \<and> list_all is_signal S
     \<and> unblockedq d' = unblockedq d @ Q
     \<and> d_asap d' = d_asap d \<and> d_readfds d' = d_readfds d \<and> d_writefds d' = d_writefds d
     \<and> mono d d' \<and> sig_any_active d' = sig_any_active d \<and> d_t d' = d_t d
     \<and> timers d' = timers d \<and> d_now d' = d_now d \<and> d_nfds d' = d_nfds d \<and> d_fd d' = d_fd d"
proof (induction xs arbitrary: d sg)
  case Nil
  then show ?case by (intro exI [of _ "[]"]) simp
next
  case (Cons x xs)
  obtain d1 sg1 where c: "check_signal x (d, sg) = (d1, sg1)" by (cases "check_signal x (d, sg)")
  from Cons.prems c have f: "fold check_signal xs (d1, sg1) = (d', sg')" by simp
  from check_signal_effect [OF c] obtain S1 Q1 where
    1: "trace d1 = trace d @ S1" "list_all is_signal S1" "unblockedq d1 = unblockedq d @ Q1"
       "d_asap d1 = d_asap d" "d_readfds d1 = d_readfds d" "d_writefds d1 = d_writefds d"
       "mono d d1" "sig_any_active d1 = sig_any_active d" "d_t d1 = d_t d"
       "timers d1 = timers d" "d_now d1 = d_now d" "d_nfds d1 = d_nfds d" "d_fd d1 = d_fd d"
    by blast
  from Cons.IH [OF f] obtain S2 Q2 where
    2: "trace d' = trace d1 @ S2" "list_all is_signal S2" "unblockedq d' = unblockedq d1 @ Q2"
       "d_asap d' = d_asap d1" "d_readfds d' = d_readfds d1" "d_writefds d' = d_writefds d1"
       "mono d1 d'" "sig_any_active d' = sig_any_active d1" "d_t d' = d_t d1"
       "timers d' = timers d1" "d_now d' = d_now d1" "d_nfds d' = d_nfds d1" "d_fd d' = d_fd d1"
    by blast
  show ?case
    using 1 2 mono_trans [OF 1(7) 2(7)]
    by (intro exI [of _ "S1 @ S2"] exI [of _ "Q1 @ Q2"]) simp
qed

lemma run_signals_effect:
  "\<exists>S R M. trace (run_signals d) = trace d @ S @ R @ M
     \<and> list_all is_signal S \<and> list_all is_run R
     \<and> (if sig_any_active d
         then (\<exists>Q sg. R = map Run (unblockedq d @ Q) \<and> M = [Sigprocmask_unblock sg, ReadPipe])
         else S = [] \<and> R = [] \<and> M = [] \<and> run_signals d = d)
     \<and> d_asap (run_signals d) = d_asap d \<and> d_readfds (run_signals d) = d_readfds d
     \<and> d_writefds (run_signals d) = d_writefds d \<and> mono d (run_signals d)
     \<and> d_t (run_signals d) = d_t d \<and> timers (run_signals d) = timers d
     \<and> d_now (run_signals d) = d_now d \<and> d_nfds (run_signals d) = d_nfds d
     \<and> d_fd (run_signals d) = d_fd d"
proof (cases "sig_any_active d")
  case False
  then have "run_signals d = d" by (simp add: run_signals_def)
  with False show ?thesis by (intro exI [of _ "[]"]) simp
next
  case True
  define d0 where "d0 = d\<lparr>sig_any_active := False\<rparr>"
  obtain d1 sg where f: "fold check_signal [0..<NSIGNALS] (d0, []) = (d1, sg)"
    by (cases "fold check_signal [0..<NSIGNALS] (d0, [])")
  have rs: "run_signals d = log ReadPipe (log (Sigprocmask_unblock sg) (run_unblocked d1))"
    using True f by (simp add: run_signals_def d0_def)
  from fold_check_signal_effect [OF f] obtain S Q where
    1: "trace d1 = trace d0 @ S" "list_all is_signal S" "unblockedq d1 = unblockedq d0 @ Q"
       "d_asap d1 = d_asap d0" "d_readfds d1 = d_readfds d0" "d_writefds d1 = d_writefds d0"
       "mono d0 d1" "d_t d1 = d_t d0"
       "timers d1 = timers d0" "d_now d1 = d_now d0" "d_nfds d1 = d_nfds d0" "d_fd d1 = d_fd d0"
    by blast
  have m0: "mono d d0" by (simp add: mono_def d0_def)
  have m1: "mono d1 (run_signals d)"
    unfolding rs by (simp add: mono_def log_more_fields run_unblocked_effect)
  have m: "mono d (run_signals d)" using m0 1(7) m1 by (blast intro: mono_trans)
  have tr: "trace (run_signals d) = trace d @ S @ map Run (unblockedq d @ Q)
              @ [Sigprocmask_unblock sg, ReadPipe]"
    unfolding rs using 1 by (simp add: run_unblocked_effect d0_def)
  have r: "list_all is_run (map Run (unblockedq d @ Q))"
    by (auto simp: list_all_iff)
  have c: "\<exists>Q' sg'. map Run (unblockedq d @ Q) = map Run (unblockedq d @ Q')
             \<and> [Sigprocmask_unblock sg, ReadPipe] = [Sigprocmask_unblock sg', ReadPipe]"
    by blast
  have rest: "d_asap (run_signals d) = d_asap d \<and> d_readfds (run_signals d) = d_readfds d
     \<and> d_writefds (run_signals d) = d_writefds d \<and> mono d (run_signals d)
     \<and> d_t (run_signals d) = d_t d \<and> timers (run_signals d) = timers d
     \<and> d_now (run_signals d) = d_now d \<and> d_nfds (run_signals d) = d_nfds d
     \<and> d_fd (run_signals d) = d_fd d"
    using m 1 by (simp add: rs log_more_fields run_unblocked_effect d0_def)
  show ?thesis
    apply (rule exI [of _ S], rule exI [of _ "map Run (unblockedq d @ Q)"],
        rule exI [of _ "[Sigprocmask_unblock sg, ReadPipe]"])
    apply (simp only: True if_True)
    apply (intro conjI tr 1(2) r c)
    using rest apply simp_all
    done
qed

lemma run_asaps_effect:
  "trace (run_asaps d) = trace d @ map TriggerAsap (rev (d_asap d))
   \<and> d_asap (run_asaps d) = []
   \<and> (\<forall>e \<in> set (d_asap d). b_r (ev (run_asaps d) e) = None)
   \<and> mono d (run_asaps d)
   \<and> d_readfds (run_asaps d) = d_readfds d \<and> d_writefds (run_asaps d) = d_writefds d
   \<and> d_t (run_asaps d) = d_t d \<and> timers (run_asaps d) = timers d
   \<and> d_now (run_asaps d) = d_now d \<and> d_nfds (run_asaps d) = d_nfds d
   \<and> d_fd (run_asaps d) = d_fd d"
proof (induction d rule: run_asaps.induct)
  case (1 d)
  show ?case
  proof (cases "0 < length (d_asap d)")
    case False
    have eq: "run_asaps d = d" using False by (subst run_asaps.simps) auto
    show ?thesis unfolding eq using False by simp
  next
    case True
    define e where "e = d_asap d ! (length (d_asap d) - 1)"
    define d1 where "d1 = log (TriggerAsap e) (trigger0 e (d\<lparr>d_asap := butlast (d_asap d)\<rparr>))"
    have eq: "run_asaps d = run_asaps d1"
      using True by (subst run_asaps.simps) (auto simp: d1_def e_def)
    have ne: "d_asap d \<noteq> []" using True by auto
    have el: "e = last (d_asap d)" using ne by (simp add: e_def last_conv_nth)
    have rv: "rev (d_asap d) = e # rev (butlast (d_asap d))"
      using ne el by (metis append_butlast_last_id rev.simps(2) rev_rev_ident rev_swap)
    have st: "set (d_asap d) = insert e (set (butlast (d_asap d)))"
      using ne el by (metis append_butlast_last_id insert_is_Un list.simps(15) rotate1.simps(2) set_rotate1)
    have d1f: "trace d1 = trace d @ [TriggerAsap e]" "d_asap d1 = butlast (d_asap d)"
      "b_r (ev d1 e) = None" "d_readfds d1 = d_readfds d" "d_writefds d1 = d_writefds d"
      "d_t d1 = d_t d" "timers d1 = timers d" "d_now d1 = d_now d" "d_nfds d1 = d_nfds d"
      "d_fd d1 = d_fd d"
      by (simp_all add: d1_def log_more_fields trigger0_driver)
    have m1: "mono d d1" by (simp add: mono_def d1_def log_more_fields trigger0_driver)
    from "1.IH" [OF True] have ih:
      "trace (run_asaps d1) = trace d1 @ map TriggerAsap (rev (d_asap d1))"
      "d_asap (run_asaps d1) = []"
      "\<forall>x \<in> set (d_asap d1). b_r (ev (run_asaps d1) x) = None"
      "mono d1 (run_asaps d1)"
      "d_readfds (run_asaps d1) = d_readfds d1" "d_writefds (run_asaps d1) = d_writefds d1"
      "d_t (run_asaps d1) = d_t d1" "timers (run_asaps d1) = timers d1"
      "d_now (run_asaps d1) = d_now d1" "d_nfds (run_asaps d1) = d_nfds d1"
      "d_fd (run_asaps d1) = d_fd d1"
      unfolding d1_def e_def by simp_all
    have em: "b_r (ev (run_asaps d1) e) = None"
      using ih(4) d1f(3) by (simp add: mono_def)
    have tr: "trace (run_asaps d1) = trace d @ map TriggerAsap (rev (d_asap d))"
      using ih(1) d1f(1,2) by (simp add: rv)
    have al: "\<forall>x \<in> set (d_asap d). b_r (ev (run_asaps d1) x) = None"
      using ih(3) em d1f(2) by (simp add: st)
    have rest: "d_readfds (run_asaps d1) = d_readfds d \<and> d_writefds (run_asaps d1) = d_writefds d
       \<and> d_t (run_asaps d1) = d_t d \<and> timers (run_asaps d1) = timers d
       \<and> d_now (run_asaps d1) = d_now d \<and> d_nfds (run_asaps d1) = d_nfds d
       \<and> d_fd (run_asaps d1) = d_fd d"
      using ih d1f by simp
    show ?thesis
      unfolding eq using tr ih(2) al mono_trans [OF m1 ih(4)] rest by blast
  qed
qed

lemma run_fd_effect:
  "\<exists>F. trace (run_fd fd rfds wfds d) = trace d @ F \<and> list_all is_fd F
     \<and> d_asap (run_fd fd rfds wfds d) = d_asap d \<and> mono d (run_fd fd rfds wfds d)
     \<and> d_t (run_fd fd rfds wfds d) = d_t d \<and> timers (run_fd fd rfds wfds d) = timers d
     \<and> d_now (run_fd fd rfds wfds d) = d_now d"
proof -
  define d1 where "d1 = (if fd \<in> rfds
                then log (TriggerFd fd False (d_fd d ! (fd * 2)))
                       (trigger0 (d_fd d ! (fd * 2)) (d\<lparr>d_readfds := d_readfds d - {fd}\<rparr>))
                else d)"
  define d2 where "d2 = (if fd \<in> wfds
         then log (TriggerFd fd True (d_fd d1 ! (fd * 2 + 1)))
                (trigger0 (d_fd d1 ! (fd * 2 + 1)) (d1\<lparr>d_writefds := d_writefds d1 - {fd}\<rparr>))
         else d1)"
  have eq: "run_fd fd rfds wfds d = d2" by (simp add: run_fd_def d1_def d2_def Let_def)
  have 1: "\<exists>F. trace d1 = trace d @ F \<and> list_all is_fd F \<and> d_asap d1 = d_asap d \<and> mono d d1
     \<and> d_t d1 = d_t d \<and> timers d1 = timers d \<and> d_now d1 = d_now d"
  proof (cases "fd \<in> rfds")
    case True
    show ?thesis
      by (rule exI [of _ "[TriggerFd fd False (d_fd d ! (fd * 2))]"])
         (simp add: d1_def True log_more_fields trigger0_driver mono_def)
  next
    case False
    then show ?thesis by (intro exI [of _ "[]"]) (simp add: d1_def)
  qed
  have 2: "\<exists>F. trace d2 = trace d1 @ F \<and> list_all is_fd F \<and> d_asap d2 = d_asap d1 \<and> mono d1 d2
     \<and> d_t d2 = d_t d1 \<and> timers d2 = timers d1 \<and> d_now d2 = d_now d1"
  proof (cases "fd \<in> wfds")
    case True
    show ?thesis
      by (rule exI [of _ "[TriggerFd fd True (d_fd d1 ! (fd * 2 + 1))]"])
         (simp add: d2_def True log_more_fields trigger0_driver mono_def)
  next
    case False
    then show ?thesis by (intro exI [of _ "[]"]) (simp add: d2_def)
  qed
  from 1 obtain F1 where f1: "trace d1 = trace d @ F1" "list_all is_fd F1" "d_asap d1 = d_asap d"
    "mono d d1" "d_t d1 = d_t d" "timers d1 = timers d" "d_now d1 = d_now d" by blast
  from 2 obtain F2 where f2: "trace d2 = trace d1 @ F2" "list_all is_fd F2" "d_asap d2 = d_asap d1"
    "mono d1 d2" "d_t d2 = d_t d1" "timers d2 = timers d1" "d_now d2 = d_now d1" by blast
  show ?thesis unfolding eq
    using f1 f2 mono_trans [OF f1(4) f2(4)] by (intro exI [of _ "F1 @ F2"]) simp
qed

lemma run_fds_effect:
  "\<exists>F. trace (run_fds fd rfds wfds d) = trace d @ F \<and> list_all is_fd F
     \<and> d_asap (run_fds fd rfds wfds d) = d_asap d \<and> mono d (run_fds fd rfds wfds d)
     \<and> d_t (run_fds fd rfds wfds d) = d_t d \<and> timers (run_fds fd rfds wfds d) = timers d
     \<and> d_now (run_fds fd rfds wfds d) = d_now d"
proof (induction fd rfds wfds d rule: run_fds.induct)
  case (1 fd rfds wfds d)
  show ?case
  proof (cases "fd < d_nfds d")
    case False
    have eq: "run_fds fd rfds wfds d = d" using False by (subst run_fds.simps) auto
    show ?thesis unfolding eq by (intro exI [of _ "[]"]) simp
  next
    case True
    define d1 where "d1 = run_fd fd rfds wfds d"
    have eq: "run_fds fd rfds wfds d = run_fds (fd + 1) rfds wfds d1"
      using True by (subst run_fds.simps) (auto simp: d1_def)
    from run_fd_effect [of fd rfds wfds d] obtain F1 where
      f1: "trace d1 = trace d @ F1" "list_all is_fd F1" "d_asap d1 = d_asap d"
      "mono d d1" "d_t d1 = d_t d" "timers d1 = timers d" "d_now d1 = d_now d"
      unfolding d1_def by blast
    from "1.IH" [OF True] obtain F2 where
      f2: "trace (run_fds (fd + 1) rfds wfds d1) = trace d1 @ F2" "list_all is_fd F2"
       "d_asap (run_fds (fd + 1) rfds wfds d1) = d_asap d1"
       "mono d1 (run_fds (fd + 1) rfds wfds d1)"
       "d_t (run_fds (fd + 1) rfds wfds d1) = d_t d1"
       "timers (run_fds (fd + 1) rfds wfds d1) = timers d1"
       "d_now (run_fds (fd + 1) rfds wfds d1) = d_now d1"
      unfolding d1_def by blast
    show ?thesis unfolding eq
      using f1 f2 mono_trans [OF f1(4) f2(4)] by (intro exI [of _ "F1 @ F2"]) simp
  qed
qed

lemma run_timers_effect:
  "\<exists>T. trace (run_timers d) = trace d @ T \<and> list_all is_timer T
     \<and> d_asap (run_timers d) = d_asap d \<and> mono d (run_timers d)
     \<and> d_readfds (run_timers d) = d_readfds d \<and> d_writefds (run_timers d) = d_writefds d
     \<and> d_now (run_timers d) = d_now d"
proof (induction d rule: run_timers.induct)
  case (1 d)
  show ?case
  proof (cases "0 < length (d_t d) \<and> \<not> timercmp_gt (expiry (timers d (d_t d ! 0))) (d_now d)")
    case False
    have eq: "run_timers d = d" using False by (subst run_timers.simps) auto
    show ?thesis unfolding eq by (intro exI [of _ "[]"]) simp
  next
    case True
    define e where "e = t_trigger (timers (pop_timer d) (d_t d ! 0))"
    define d1 where "d1 = free_timer (d_t d ! 0)
                (log (TriggerTimer (d_t d ! 0) e) (trigger0 e (pop_timer d)))"
    have eq: "run_timers d = run_timers d1"
      using True by (subst run_timers.simps) (auto simp: d1_def e_def)
    note hp = heap_step_fields [OF heap_step_pop_timer [of d]]
    note hf = heap_step_fields [OF heap_step_free_timer
        [of "log (TriggerTimer (d_t d ! 0) e) (trigger0 e (pop_timer d))" "d_t d ! 0"]]
    have f1: "trace d1 = trace d @ [TriggerTimer (d_t d ! 0) e]" "d_asap d1 = d_asap d"
      "d_readfds d1 = d_readfds d" "d_writefds d1 = d_writefds d" "d_now d1 = d_now d"
      unfolding d1_def by (simp_all add: hf hp log_more_fields trigger0_driver)
    have m1: "mono d d1"
      unfolding d1_def mono_def by (simp add: hf hp log_more_fields trigger0_driver)
    from "1.IH" [OF True] obtain T2 where
      f2: "trace (run_timers d1) = trace d1 @ T2" "list_all is_timer T2"
       "d_asap (run_timers d1) = d_asap d1" "mono d1 (run_timers d1)"
       "d_readfds (run_timers d1) = d_readfds d1" "d_writefds (run_timers d1) = d_writefds d1"
       "d_now (run_timers d1) = d_now d1"
      unfolding d1_def e_def by blast
    show ?thesis unfolding eq
      using f1 f2 mono_trans [OF m1 f2(4)]
      by (intro exI [of _ "TriggerTimer (d_t d ! 0) e # T2"]) simp
  qed
qed

lemma drop_dead_descriptors_effect:
  "\<exists>n. drop_dead_descriptors d = d\<lparr>d_nfds := n\<rparr> \<and> n \<le> d_nfds d"
proof (induction d rule: drop_dead_descriptors.induct)
  case (1 d)
  show ?case
  proof (cases "d_nfds d \<noteq> 0 \<and> \<not> event_bool (d_fd d ! (d_nfds d * 2 - 2)) d
         \<and> \<not> event_bool (d_fd d ! (d_nfds d * 2 - 1)) d")
    case False
    have eq: "drop_dead_descriptors d = d" using False by (subst drop_dead_descriptors.simps) auto
    show ?thesis unfolding eq by (intro exI [of _ "d_nfds d"]) simp
  next
    case True
    have eq: "drop_dead_descriptors d = drop_dead_descriptors (d\<lparr>d_nfds := d_nfds d - 1\<rparr>)"
      using True by (subst drop_dead_descriptors.simps) auto
    from "1.IH" [OF True] obtain n where
      "drop_dead_descriptors (d\<lparr>d_nfds := d_nfds d - 1\<rparr>) = d\<lparr>d_nfds := d_nfds d - 1\<rparr>\<lparr>d_nfds := n\<rparr>"
      "n \<le> d_nfds d - 1" by auto
    then show ?thesis unfolding eq by (intro exI [of _ n]) simp
  qed
qed

lemma drop_dead_descriptors_fields:
  "trace (drop_dead_descriptors d) = trace d" "d_asap (drop_dead_descriptors d) = d_asap d"
  "d_readfds (drop_dead_descriptors d) = d_readfds d"
  "d_writefds (drop_dead_descriptors d) = d_writefds d"
  "ev (drop_dead_descriptors d) = ev d" "unblockedq (drop_dead_descriptors d) = unblockedq d"
  "sig_any_active (drop_dead_descriptors d) = sig_any_active d"
  "sig_pipe0 (drop_dead_descriptors d) = sig_pipe0 d"
  "d_t (drop_dead_descriptors d) = d_t d" "timers (drop_dead_descriptors d) = timers d"
  "d_now (drop_dead_descriptors d) = d_now d"
  using drop_dead_descriptors_effect [of d] by auto

lemma once_effect:
  fixes sel clock d
  defines "d1 \<equiv> drop_cancelled_timers d"
  defines "d2 \<equiv> drop_dead_descriptors d1"
  defines "res \<equiv> sel (select_nfds d2) (select_rfds d2) (d_writefds d2) (determine_timeout d1)"
  shows "\<exists>S R1 M F T R.
     trace (once sel clock d)
       = trace d @ [Select (select_nfds d2) (select_rfds d2) (d_writefds d2) (determine_timeout d1)]
           @ S @ R1 @ M @ map TriggerAsap (rev (d_asap d)) @ F @ [Gettimeofday] @ T @ R
     \<and> list_all is_signal S \<and> list_all is_run R1
     \<and> (if sig_any_active d
         then (\<exists>Q sg. R1 = map Run (unblockedq d @ Q) \<and> M = [Sigprocmask_unblock sg, ReadPipe])
         else S = [] \<and> R1 = [] \<and> M = [])
     \<and> list_all is_fd F \<and> (sel_ret res < 0 \<longrightarrow> F = [])
     \<and> list_all is_timer T \<and> list_all is_run R
     \<and> d_asap (once sel clock d) = [] \<and> unblockedq (once sel clock d) = []
     \<and> (\<forall>e \<in> set (d_asap d). b_r (ev (once sel clock d) e) = None)
     \<and> d_now (once sel clock d) = clock
     \<and> (sel_ret res < 0 \<longrightarrow> d_readfds (once sel clock d) = d_readfds d
                               \<and> d_writefds (once sel clock d) = d_writefds d)"
proof -
  define a where "a = Select (select_nfds d2) (select_rfds d2) (d_writefds d2) (determine_timeout d1)"
  define d3 where "d3 = log a d2"
  define d4 where "d4 = run_signals d3"
  define d5 where "d5 = run_asaps d4"
  define d6 where "d6 = (if sel_ret res \<ge> 0 then run_fds 0 (sel_rfds res) (sel_wfds res) d5 else d5)"
  define d7 where "d7 = log Gettimeofday (d6\<lparr>d_now := clock\<rparr>)"
  define d8 where "d8 = run_timers d7"
  have eq: "once sel clock d = run_unblocked d8"
    by (simp add: once_def Let_def d1_def d2_def res_def a_def d3_def d4_def d5_def d6_def
        d7_def d8_def)
  note h1 = heap_step_fields [OF heap_step_drop_cancelled [of d], folded d1_def]
  note h2 = drop_dead_descriptors_fields [of d1, folded d2_def]
  have f3: "trace d3 = trace d @ [a]" "d_asap d3 = d_asap d" "d_readfds d3 = d_readfds d"
    "d_writefds d3 = d_writefds d" "ev d3 = ev d" "unblockedq d3 = unblockedq d"
    "sig_any_active d3 = sig_any_active d"
    by (simp_all add: d3_def log_more_fields h1 h2)
  from run_signals_effect [of d3] obtain S R1 M where
    f4: "trace d4 = trace d3 @ S @ R1 @ M" "list_all is_signal S" "list_all is_run R1"
     "if sig_any_active d3
         then (\<exists>Q sg. R1 = map Run (unblockedq d3 @ Q) \<and> M = [Sigprocmask_unblock sg, ReadPipe])
         else S = [] \<and> R1 = [] \<and> M = [] \<and> run_signals d3 = d3"
     "d_asap d4 = d_asap d3" "d_readfds d4 = d_readfds d3" "d_writefds d4 = d_writefds d3"
     "mono d3 d4"
    unfolding d4_def by blast
  have c4: "if sig_any_active d
         then (\<exists>Q sg. R1 = map Run (unblockedq d @ Q) \<and> M = [Sigprocmask_unblock sg, ReadPipe])
         else S = [] \<and> R1 = [] \<and> M = []"
    using f4(4) by (simp add: f3 split: if_splits)
  have f5: "trace d5 = trace d4 @ map TriggerAsap (rev (d_asap d4))" "d_asap d5 = []"
    "\<forall>e \<in> set (d_asap d4). b_r (ev d5 e) = None" "mono d4 d5"
    "d_readfds d5 = d_readfds d4" "d_writefds d5 = d_writefds d4"
    using run_asaps_effect [of d4] unfolding d5_def by simp_all
  have f6: "\<exists>F. trace d6 = trace d5 @ F \<and> list_all is_fd F \<and> (sel_ret res < 0 \<longrightarrow> F = [])
      \<and> d_asap d6 = d_asap d5 \<and> mono d5 d6
      \<and> (sel_ret res < 0 \<longrightarrow> d_readfds d6 = d_readfds d5 \<and> d_writefds d6 = d_writefds d5)"
  proof (cases "sel_ret res \<ge> 0")
    case True
    from run_fds_effect [of 0 "sel_rfds res" "sel_wfds res" d5] obtain F where
      "trace d6 = trace d5 @ F" "list_all is_fd F" "d_asap d6 = d_asap d5" "mono d5 d6"
      unfolding d6_def using True by auto
    with True show ?thesis by (intro exI [of _ F]) simp
  next
    case False
    then have "d6 = d5" by (simp add: d6_def)
    then show ?thesis by (intro exI [of _ "[]"]) simp
  qed
  then obtain F where
    f6: "trace d6 = trace d5 @ F" "list_all is_fd F" "sel_ret res < 0 \<longrightarrow> F = []"
      "d_asap d6 = d_asap d5" "mono d5 d6"
      "sel_ret res < 0 \<longrightarrow> d_readfds d6 = d_readfds d5 \<and> d_writefds d6 = d_writefds d5"
    by blast
  have f7: "trace d7 = trace d6 @ [Gettimeofday]" "d_asap d7 = d_asap d6" "ev d7 = ev d6"
    "d_readfds d7 = d_readfds d6" "d_writefds d7 = d_writefds d6" "d_now d7 = clock"
    by (simp_all add: d7_def log_more_fields)
  from run_timers_effect [of d7] obtain T where
    f8: "trace d8 = trace d7 @ T" "list_all is_timer T" "d_asap d8 = d_asap d7" "mono d7 d8"
      "d_readfds d8 = d_readfds d7" "d_writefds d8 = d_writefds d7" "d_now d8 = d_now d7"
    unfolding d8_def by blast
  note f9 = run_unblocked_effect [of d8]
  have r9: "list_all is_run (map Run (unblockedq d8))" by (auto simp: list_all_iff)
  have tr: "trace (once sel clock d)
       = trace d @ [a] @ S @ R1 @ M @ map TriggerAsap (rev (d_asap d)) @ F @ [Gettimeofday] @ T
           @ map Run (unblockedq d8)"
    unfolding eq using f9 f8(1) f7(1) f6(1) f5(1) f4(1,5) f3(1,2) by simp
  have em: "\<forall>e \<in> set (d_asap d). b_r (ev (once sel clock d) e) = None"
  proof
    fix e assume "e \<in> set (d_asap d)"
    then have "b_r (ev d5 e) = None" using f5(3) f4(5) f3(2) by simp
    then have "b_r (ev d6 e) = None" using f6(5) by (simp add: mono_def)
    then have "b_r (ev d7 e) = None" using f7(3) by simp
    then have "b_r (ev d8 e) = None" using f8(4) by (simp add: mono_def)
    then show "b_r (ev (once sel clock d) e) = None" unfolding eq using f9 by simp
  qed
  have as: "d_asap (once sel clock d) = []" "unblockedq (once sel clock d) = []"
    "d_now (once sel clock d) = clock"
    unfolding eq using f9 f8 f7 f6 f5 by simp_all
  have fds: "sel_ret res < 0 \<longrightarrow> d_readfds (once sel clock d) = d_readfds d
                               \<and> d_writefds (once sel clock d) = d_writefds d"
    unfolding eq using f9 f8 f7 f6(6) f5 f4 f3 by simp
  show ?thesis
    apply (rule exI [of _ S], rule exI [of _ R1], rule exI [of _ M], rule exI [of _ F],
        rule exI [of _ T], rule exI [of _ "map Run (unblockedq d8)"])
    apply (intro conjI)
    apply (rule tr [unfolded a_def])
    apply (rule f4(2))
    apply (rule f4(3))
    apply (rule c4)
    apply (rule f6(2))
    apply (rule f6(3))
    apply (rule f8(2))
    apply (rule r9)
    apply (rule as(1))
    apply (rule as(2))
    apply (rule em)
    apply (rule as(3))
    apply (rule fds)
    done
qed






lemma timercmp_gt_usecs:
  "normal_tv a \<Longrightarrow> normal_tv b \<Longrightarrow> timercmp_gt a b \<longleftrightarrow> usecs b < usecs a"
  unfolding timercmp_gt_def usecs_def normal_tv_def
  by (cases "tv_sec a = tv_sec b"; cases "tv_sec a < tv_sec b") simp_all

lemma timersub_usecs: "usecs (timersub a b) = usecs a - usecs b"
  by (simp add: timersub_def usecs_def)

lemma timersub_normal: "normal_tv a \<Longrightarrow> normal_tv b \<Longrightarrow> normal_tv (timersub a b)"
  by (simp add: timersub_def normal_tv_def)

lemma timer_semantics:
  assumes "normal_tv a" "normal_tv b"
  shows "timercmp_gt a b \<longleftrightarrow> usecs b < usecs a"
    and "timercmp_gt a b \<Longrightarrow> usecs (timersub a b) = max 0 (usecs a - usecs b)"
    and "timercmp_gt a b \<Longrightarrow> normal_tv (timersub a b)"
  using assms timercmp_gt_usecs [of a b] timersub_usecs [of a b] timersub_normal [of a b]
  by auto

text \<open>
  Claim C6. The timeout that \<^verbatim>\<open>once()\<close> passes to \<^verbatim>\<open>select\<close> is the one computed after
  the cancelled timers at the head of the heap are dropped (\<open>root\<close> is the root of the heap
  then): zero whenever the asap array is non-empty, or the root is due, or a signal is
  pending; no timeout when there is no timer and none of these holds; and otherwise
  \<^verbatim>\<open>timersub\<close> of the root's expiry and \<^verbatim>\<open>now\<close>. For time values with microseconds in
  \<open>[0, 1000000)\<close>, "due" is "expiry at most now" and the difference is the expiry minus
  now in microseconds, clipped at zero (it is positive on this branch).
\<close>

theorem wait_budget:
  fixes sel clock d
  defines "d1 \<equiv> drop_cancelled_timers d"
  defines "root \<equiv> expiry (timers d1 (d_t d1 ! 0))"
  shows "(\<exists>nfds rfds wfds rest.
            trace (once sel clock d)
              = trace d @ Select nfds rfds wfds (determine_timeout d1) # rest)
     \<and> (d_asap d \<noteq> [] \<or> sig_any_active d \<or> (d_t d1 \<noteq> [] \<and> \<not> timercmp_gt root (d_now d))
          \<longrightarrow> determine_timeout d1 = Some timerclear)
     \<and> (d_asap d = [] \<and> \<not> sig_any_active d \<and> d_t d1 = [] \<longrightarrow> determine_timeout d1 = None)
     \<and> (d_asap d = [] \<and> \<not> sig_any_active d \<and> d_t d1 \<noteq> [] \<and> timercmp_gt root (d_now d)
          \<longrightarrow> determine_timeout d1 = Some (timersub root (d_now d)))
     \<and> usecs timerclear = 0
     \<and> (normal_tv root \<and> normal_tv (d_now d) \<longrightarrow>
          (timercmp_gt root (d_now d) \<longleftrightarrow> usecs (d_now d) < usecs root)
          \<and> (timercmp_gt root (d_now d) \<longrightarrow>
                usecs (timersub root (d_now d)) = max 0 (usecs root - usecs (d_now d))
                \<and> normal_tv (timersub root (d_now d))))"
proof -
  note h1 = heap_step_fields [OF heap_step_drop_cancelled [of d], folded d1_def]
  from once_effect [of sel clock d] obtain rest where
    "trace (once sel clock d) = trace d @ Select (select_nfds (drop_dead_descriptors d1))
        (select_rfds (drop_dead_descriptors d1)) (d_writefds (drop_dead_descriptors d1))
        (determine_timeout d1) # rest"
    unfolding d1_def by auto
  then have 1: "\<exists>nfds rfds wfds rest.
            trace (once sel clock d)
              = trace d @ Select nfds rfds wfds (determine_timeout d1) # rest"
    by blast
  have 2: "d_asap d \<noteq> [] \<or> sig_any_active d \<or> (d_t d1 \<noteq> [] \<and> \<not> timercmp_gt root (d_now d))
          \<longrightarrow> determine_timeout d1 = Some timerclear"
    by (auto simp: determine_timeout_def h1 root_def)
  have 3: "d_asap d = [] \<and> \<not> sig_any_active d \<and> d_t d1 = [] \<longrightarrow> determine_timeout d1 = None"
    by (auto simp: determine_timeout_def h1 root_def)
  have 4: "d_asap d = [] \<and> \<not> sig_any_active d \<and> d_t d1 \<noteq> [] \<and> timercmp_gt root (d_now d)
          \<longrightarrow> determine_timeout d1 = Some (timersub root (d_now d))"
    by (auto simp: determine_timeout_def h1 root_def)
  have 5: "usecs timerclear = 0" by (simp add: usecs_def timerclear_def)
  have 6: "normal_tv root \<and> normal_tv (d_now d) \<longrightarrow>
          (timercmp_gt root (d_now d) \<longleftrightarrow> usecs (d_now d) < usecs root)
          \<and> (timercmp_gt root (d_now d) \<longrightarrow>
                usecs (timersub root (d_now d)) = max 0 (usecs root - usecs (d_now d))
                \<and> normal_tv (timersub root (d_now d)))"
    using timer_semantics [of root "d_now d"] by blast
  from 1 2 3 4 5 6 show ?thesis by blast
qed








lemma grow_cap_bound: "0 < ncap \<Longrightarrow> fd * 2 < grow_cap fd ncap"
proof (induction fd ncap rule: grow_cap.induct)
  case (1 fd ncap)
  show ?case
  proof (cases "fd * 2 \<ge> ncap")
    case True
    with "1.prems" have eq: "grow_cap fd ncap = grow_cap fd (ncap * 2)"
      by (subst grow_cap.simps) simp
    from "1.IH" "1.prems" True show ?thesis unfolding eq by simp
  next
    case False
    then have "grow_cap fd ncap = ncap" by (subst grow_cap.simps) simp
    with False show ?thesis by simp
  qed
qed

lemma grow_cap_even: "even ncap \<Longrightarrow> even (grow_cap fd ncap)"
proof (induction fd ncap rule: grow_cap.induct)
  case (1 fd ncap)
  show ?case
  proof (cases "0 < ncap \<and> fd * 2 \<ge> ncap")
    case True
    then have eq: "grow_cap fd ncap = grow_cap fd (ncap * 2)"
      by (subst grow_cap.simps) simp
    from "1.IH" [OF True] show ?thesis unfolding eq by simp
  next
    case False
    then have "grow_cap fd ncap = ncap" by (subst grow_cap.simps) auto
    with "1.prems" show ?thesis by simp
  qed
qed

lemma expand_fds_fields:
  "ev (expand_fds fd d) = ev d" "d_readfds (expand_fds fd d) = d_readfds d"
  "d_writefds (expand_fds fd d) = d_writefds d" "d_nfds (expand_fds fd d) = d_nfds d"
  by (simp_all add: expand_fds_def Let_def)

lemma expand_fds_length:
  "fd * 2 \<ge> length (d_fd d) \<Longrightarrow> even (length (d_fd d)) \<Longrightarrow>
   fd * 2 + 1 < length (d_fd (expand_fds fd d))"
proof -
  assume a: "fd * 2 \<ge> length (d_fd d)" and e: "even (length (d_fd d))"
  define n0 where "n0 = (if length (d_fd d) \<noteq> 0 then length (d_fd d) * 2 else 16)"
  have p: "0 < n0" and ev0: "even n0" by (auto simp: n0_def)
  have b: "fd * 2 < grow_cap fd n0" using grow_cap_bound [OF p] .
  have c: "even (grow_cap fd n0)" using grow_cap_even [OF ev0] .
  from b c have "fd * 2 + 1 < grow_cap fd n0"
    by (metis Suc_eq_plus1 Suc_lessI dvd_triv_right even_Suc)
  moreover have "length (d_fd (expand_fds fd d)) = grow_cap fd n0"
    using a b by (simp add: expand_fds_def n0_def Let_def)
  ultimately show ?thesis by simp
qed

text \<open>
  Claim C10. \<^verbatim>\<open>at_fd(fd, write, e)\<close> with an event \<open>e\<close> that is empty removes \<open>fd\<close> from
  the read set (\<open>write\<close> false) or the write set (\<open>write\<close> true), leaves the other set and
  \<^verbatim>\<open>_nfds\<close> alone; with an event that is not empty it adds \<open>fd\<close> to that set and raises
  \<^verbatim>\<open>_nfds\<close> to \<open>fd + 1\<close> when it was smaller. In both cases the event is stored in the
  slot \<open>fd * 2 + write\<close> (the capacity of the table is even).
\<close>

theorem at_fd_arms_or_disarms:
  "(\<not> event_bool e d \<longrightarrow>
      d_readfds (at_fd fd False e d) = d_readfds d - {fd}
      \<and> d_writefds (at_fd fd False e d) = d_writefds d
      \<and> d_writefds (at_fd fd True e d) = d_writefds d - {fd}
      \<and> d_readfds (at_fd fd True e d) = d_readfds d
      \<and> d_nfds (at_fd fd write e d) = d_nfds d)
   \<and> (event_bool e d \<longrightarrow>
      d_readfds (at_fd fd False e d) = insert fd (d_readfds d)
      \<and> d_writefds (at_fd fd False e d) = d_writefds d
      \<and> d_writefds (at_fd fd True e d) = insert fd (d_writefds d)
      \<and> d_readfds (at_fd fd True e d) = d_readfds d
      \<and> d_nfds (at_fd fd write e d) = max (d_nfds d) (fd + 1)
      \<and> fd + 1 \<le> d_nfds (at_fd fd write e d))
   \<and> (even (length (d_fd d)) \<longrightarrow>
      d_fd (at_fd fd write e d) ! (fd * 2 + (if write then 1 else 0)) = e)"
proof (intro conjI impI)
  assume ev: "even (length (d_fd d))"
  define d1 where "d1 = (if fd * 2 \<ge> length (d_fd d) then expand_fds fd d else d)"
  have len: "fd * 2 + 1 < length (d_fd d1)"
  proof (cases "fd * 2 \<ge> length (d_fd d)")
    case True
    then show ?thesis using expand_fds_length [OF True ev] by (simp add: d1_def)
  next
    case False
    then have "fd * 2 < length (d_fd d)" by simp
    with ev have "fd * 2 + 1 < length (d_fd d)"
      by (metis Suc_eq_plus1 Suc_lessI dvd_triv_right even_Suc)
    with False show ?thesis by (simp add: d1_def)
  qed
  have "d_fd (at_fd fd write e d) = (d_fd d1)[fd * 2 + (if write then 1 else 0) := e]"
    by (simp add: at_fd_def Let_def d1_def)
  with len show "d_fd (at_fd fd write e d) ! (fd * 2 + (if write then 1 else 0)) = e"
    by simp
qed (auto simp: at_fd_def Let_def event_bool_def expand_fds_fields max_def)

theorem at_fd_arms_or_disarms_witness:
  "event_bool 3 ex_driver \<and> \<not> event_bool 5 ex_driver \<and> even (length (d_fd ex_driver))
   \<and> d_writefds (at_fd 4 True 3 ex_driver) = {4}
   \<and> d_nfds (at_fd 4 True 3 ex_driver) = 5
   \<and> d_fd (at_fd 4 True 3 ex_driver) ! 9 = 3
   \<and> d_readfds (at_fd 0 False 5 ex_driver) = {}
   \<and> d_nfds (at_fd 0 False 5 ex_driver) = 1
   \<and> d_fd (at_fd 0 False 5 ex_driver) ! 0 = 5"
  using at_fd_arms_or_disarms [of 3 ex_driver 4 True]
    at_fd_arms_or_disarms [of 5 ex_driver 0 False]
  by (simp add: ex_driver_def event_bool_def ex_armed_def ex_empty_event_def)



theorem wait_budget_witness:
  "d_asap ex_driver \<noteq> []
   \<and> determine_timeout (drop_cancelled_timers ex_driver) = Some timerclear
   \<and> d_asap (ex_driver\<lparr>d_asap := [], d_t := []\<rparr>) = []
   \<and> determine_timeout (drop_cancelled_timers (ex_driver\<lparr>d_asap := [], d_t := []\<rparr>)) = None
   \<and> determine_timeout (drop_cancelled_timers (ex_driver\<lparr>d_asap := []\<rparr>))
       = Some \<lparr>tv_sec = 0, tv_usec = 999700\<rparr>
   \<and> usecs \<lparr>tv_sec = 0, tv_usec = 999700\<rparr>
       = max 0 (usecs \<lparr>tv_sec = 10, tv_usec = 500\<rparr> - usecs \<lparr>tv_sec = 9, tv_usec = 800\<rparr>)"
proof -
  have a: "drop_cancelled_timers ex_driver = ex_driver"
    by (subst drop_cancelled_timers.simps)
       (simp add: ex_driver_def event_bool_def ex_armed_def)
  have b: "drop_cancelled_timers (ex_driver\<lparr>d_asap := [], d_t := []\<rparr>)
             = ex_driver\<lparr>d_asap := [], d_t := []\<rparr>"
    by (subst drop_cancelled_timers.simps) simp
  have c: "drop_cancelled_timers (ex_driver\<lparr>d_asap := []\<rparr>) = ex_driver\<lparr>d_asap := []\<rparr>"
    by (subst drop_cancelled_timers.simps)
       (simp add: ex_driver_def event_bool_def ex_armed_def)
  have f: "d_asap ex_driver = [2]" "sig_any_active ex_driver = False" "d_t ex_driver = [50]"
    "d_now ex_driver = \<lparr>tv_sec = 9, tv_usec = 800\<rparr>"
    "expiry (timers ex_driver 50) = \<lparr>tv_sec = 10, tv_usec = 500\<rparr>"
    by (simp_all add: ex_driver_def)
  have g: "timercmp_gt \<lparr>tv_sec = 10, tv_usec = 500\<rparr> \<lparr>tv_sec = 9, tv_usec = 800\<rparr>"
    "timersub \<lparr>tv_sec = 10, tv_usec = 500\<rparr> \<lparr>tv_sec = 9, tv_usec = 800\<rparr>
       = \<lparr>tv_sec = 0, tv_usec = 999700\<rparr>"
    "normal_tv \<lparr>tv_sec = 10, tv_usec = 500\<rparr>" "normal_tv \<lparr>tv_sec = 9, tv_usec = 800\<rparr>"
    by (simp_all add: timercmp_gt_def timersub_def normal_tv_def)
  from wait_budget [of sel_ready ex_clock ex_driver]
    wait_budget [of sel_ready ex_clock "ex_driver\<lparr>d_asap := [], d_t := []\<rparr>"]
    wait_budget [of sel_ready ex_clock "ex_driver\<lparr>d_asap := []\<rparr>"]
  show ?thesis by (simp add: a b c f g)
qed


end
